theory Spec2Isabelle
  imports Complex_Main
begin

section \<open>Data model (piileaktest/models.py)\<close>

datatype PIIType =
    EMAIL | PHONE | SSN | CREDIT_CARD | IP_ADDRESS | PASSPORT | DOB | ZIP_CODE
  | FULL_NAME | ACCOUNT_NUMBER | HIGH_ENTROPY_TOKEN

datatype Severity = CRITICAL | HIGH | MEDIUM | LOW | INFO

datatype MaskingType = PLAINTEXT | PARTIAL_MASK | FULL_MASK | HASH | TOKENIZED

text \<open>The enums derive from \<^verbatim>\<open>str\<close>; \<open>pii_value\<close> and \<open>severity_value\<close> are
  the members' \<^verbatim>\<open>.value\<close> strings.\<close>

fun pii_value :: "PIIType \<Rightarrow> string" where
  "pii_value EMAIL = ''email''"
| "pii_value PHONE = ''phone''"
| "pii_value SSN = ''ssn''"
| "pii_value CREDIT_CARD = ''credit_card''"
| "pii_value IP_ADDRESS = ''ip_address''"
| "pii_value PASSPORT = ''passport''"
| "pii_value DOB = ''dob''"
| "pii_value ZIP_CODE = ''zip_code''"
| "pii_value FULL_NAME = ''full_name''"
| "pii_value ACCOUNT_NUMBER = ''account_number''"
| "pii_value HIGH_ENTROPY_TOKEN = ''high_entropy_token''"

fun severity_value :: "Severity \<Rightarrow> string" where
  "severity_value CRITICAL = ''CRITICAL''"
| "severity_value HIGH = ''HIGH''"
| "severity_value MEDIUM = ''MEDIUM''"
| "severity_value LOW = ''LOW''"
| "severity_value INFO = ''INFO''"

text \<open>The exceptions the modelled functions can raise.\<close>

datatype error = ValueError | IndexError | KeyError | RecursionError

section \<open>Python strings\<close>

text \<open>
  A Python \<^verbatim>\<open>str\<close> is modelled as a \<open>string\<close> whose characters are the code
  points U+0000 to U+00FF; \<open>cp c\<close> is the code point of \<open>c\<close>. The character classes
  below are Python's on that range.
\<close>

definition cp :: "char \<Rightarrow> nat" where
  "cp c = of_char c"

definition in_range :: "char \<Rightarrow> char \<Rightarrow> char \<Rightarrow> bool" where
  "in_range lo hi c = (cp lo \<le> cp c \<and> cp c \<le> cp hi)"

definition ascii_digit :: "char \<Rightarrow> bool" where
  \<comment> \<open>\<^verbatim>\<open>\d\<close> of \<^verbatim>\<open>re\<close> and \<^verbatim>\<open>str.isdecimal\<close>: the decimal digits\<close>
  "ascii_digit c = in_range CHR ''0'' CHR ''9'' c"

definition py_isdigit_char :: "char \<Rightarrow> bool" where
  \<comment> \<open>\<^verbatim>\<open>str.isdigit\<close> also accepts the superscript digits U+00B2, U+00B3, U+00B9\<close>
  "py_isdigit_char c = (ascii_digit c \<or> cp c = 178 \<or> cp c = 179 \<or> cp c = 185)"

definition py_isspace_char :: "char \<Rightarrow> bool" where
  \<comment> \<open>\<^verbatim>\<open>\s\<close> of \<^verbatim>\<open>re\<close> and the characters \<^verbatim>\<open>str.strip\<close> removes\<close>
  "py_isspace_char c =
     ((9 \<le> cp c \<and> cp c \<le> 13) \<or> (28 \<le> cp c \<and> cp c \<le> 32) \<or> cp c = 133 \<or> cp c = 160)"

definition py_isword_char :: "char \<Rightarrow> bool" where
  \<comment> \<open>\<^verbatim>\<open>\w\<close> of \<^verbatim>\<open>re\<close>: alphanumeric characters and the underscore\<close>
  "py_isword_char c =
     (in_range CHR ''a'' CHR ''z'' c \<or> in_range CHR ''A'' CHR ''Z'' c \<or> ascii_digit c
      \<or> c = CHR ''_''
      \<or> cp c \<in> {170, 178, 179, 181, 185, 186, 188, 189, 190}
      \<or> (192 \<le> cp c \<and> cp c \<le> 214) \<or> (216 \<le> cp c \<and> cp c \<le> 246) \<or> 248 \<le> cp c)"

definition py_isdigit :: "string \<Rightarrow> bool" where
  \<comment> \<open>\<^verbatim>\<open>s.isdigit()\<close>: at least one character and all of them digits\<close>
  "py_isdigit s = (s \<noteq> [] \<and> list_all py_isdigit_char s)"

definition strip :: "string \<Rightarrow> string" where
  \<comment> \<open>\<^verbatim>\<open>s.strip()\<close>\<close>
  "strip s = rev (dropWhile py_isspace_char (rev (dropWhile py_isspace_char s)))"

fun int_of_char :: "char \<Rightarrow> error + nat" where
  \<comment> \<open>\<^verbatim>\<open>int(d)\<close> for a one-character string \<open>d\<close>\<close>
  "int_of_char c = (if ascii_digit c then Inr (cp c - 48) else Inl ValueError)"

fun str_nat :: "nat \<Rightarrow> string" where
  \<comment> \<open>\<^verbatim>\<open>str(n)\<close> for a non-negative integer\<close>
  "str_nat n =
     (if n < 10 then [char_of (48 + n)] else str_nat (n div 10) @ [char_of (48 + n mod 10)])"

text \<open>Sequencing of computations that may raise: the first exception wins.\<close>

fun bind :: "error + 'a \<Rightarrow> ('a \<Rightarrow> error + 'b) \<Rightarrow> error + 'b" where
  "bind (Inl e) f = Inl e"
| "bind (Inr x) f = f x"

fun mapM :: "('a \<Rightarrow> error + 'b) \<Rightarrow> 'a list \<Rightarrow> error + 'b list" where
  "mapM f [] = Inr []"
| "mapM f (x # xs) = bind (f x) (\<lambda>y. bind (mapM f xs) (\<lambda>ys. Inr (y # ys)))"

definition contains :: "string \<Rightarrow> string \<Rightarrow> bool" where
  \<comment> \<open>\<^verbatim>\<open>sub in s\<close> for strings\<close>
  "contains sub s = list_ex (\<lambda>k. take (length sub) (drop k s) = sub) [0..<Suc (length s)]"

definition upper_has_X :: "string \<Rightarrow> bool" where
  \<comment> \<open>\<^verbatim>\<open>'X' in value.upper()\<close>: only \<^verbatim>\<open>x\<close> and \<^verbatim>\<open>X\<close> upper-case to \<^verbatim>\<open>X\<close>\<close>
  "upper_has_X v = (CHR ''X'' \<in> set v \<or> CHR ''x'' \<in> set v)"

definition lower_char :: "char \<Rightarrow> char" where
  "lower_char c =
     (if (65 \<le> cp c \<and> cp c \<le> 90) \<or> (192 \<le> cp c \<and> cp c \<le> 214) \<or> (216 \<le> cp c \<and> cp c \<le> 222)
      then char_of (cp c + 32) else c)"

definition lower :: "string \<Rightarrow> string" where
  \<comment> \<open>\<^verbatim>\<open>s.lower()\<close>\<close>
  "lower s = map lower_char s"

definition quoted :: "string \<Rightarrow> string" where
  \<comment> \<open>the string between two apostrophes, as the f-strings of the messages write it\<close>
  "quoted s = [CHR 0x27] @ s @ [CHR 0x27]"

fun str_less :: "string \<Rightarrow> string \<Rightarrow> bool" where
  \<comment> \<open>\<^verbatim>\<open>a < b\<close> on strings: lexicographic by code point\<close>
  "str_less [] [] = False"
| "str_less [] (y # ys) = True"
| "str_less (x # xs) [] = False"
| "str_less (x # xs) (y # ys) = (cp x < cp y \<or> (x = y \<and> str_less xs ys))"

text \<open>
  A \<^verbatim>\<open>dict\<close> keeps its keys in insertion order: an association list with one entry
  for each key. \<open>map_of d k\<close> looks a key up; \<open>dict_set d k v\<close> is \<^verbatim>\<open>d[k] = v\<close>,
  which keeps the place of a key that is already there.
\<close>

fun dict_set :: "('k \<times> 'v) list \<Rightarrow> 'k \<Rightarrow> 'v \<Rightarrow> ('k \<times> 'v) list" where
  "dict_set [] k v = [(k, v)]"
| "dict_set ((k', v') # d) k v = (if k' = k then (k, v) # d else (k', v') # dict_set d k v)"

section \<open>Regular expressions (Python's \<^verbatim>\<open>re\<close>)\<close>

text \<open>
  The patterns of the detectors are transcribed into \<open>rx\<close>. \<open>Rep r lo hi\<close> is
  \<^verbatim>\<open>r{lo,hi}\<close>, with \<open>hi = None\<close> for no upper bound; \<open>Dollar\<close> is \<^verbatim>\<open>$\<close>,
  which matches at the end of the string and before a newline that ends the string.
  \<^verbatim>\<open>pattern.match(s)\<close> looks for a match that starts at the first character, so a
  leading \<^verbatim>\<open>^\<close> is not transcribed.
\<close>

datatype rx =
    Eps
  | Cls "char \<Rightarrow> bool"
  | Seq rx rx
  | Alt rx rx
  | Rep rx nat "nat option"
  | Dollar

fun rep_iter :: "(string \<Rightarrow> string list) \<Rightarrow> nat \<Rightarrow> nat \<Rightarrow> string \<Rightarrow> string list" where
  \<comment> \<open>the rests of \<open>s\<close> after at least \<open>lo\<close> and at most \<open>n\<close> matches in a row\<close>
  "rep_iter f lo 0 s = (if lo = 0 then [s] else [])"
| "rep_iter f lo (Suc n) s =
     (if lo = 0 then [s] else []) @ concat (map (rep_iter f (lo - 1) n) (f s))"

fun rx_rests :: "rx \<Rightarrow> string \<Rightarrow> string list" where
  \<comment> \<open>the rests of \<open>s\<close> after each way the pattern matches at its start\<close>
  "rx_rests Eps s = [s]"
| "rx_rests (Cls P) s = (case s of [] \<Rightarrow> [] | c # cs \<Rightarrow> if P c then [cs] else [])"
| "rx_rests (Seq a b) s = concat (map (\<lambda>t. rx_rests b t) (rx_rests a s))"
| "rx_rests (Alt a b) s = rx_rests a s @ rx_rests b s"
| "rx_rests (Rep a lo hi) s =
     rep_iter (\<lambda>t. rx_rests a t) lo (case hi of None \<Rightarrow> max lo (length s) | Some h \<Rightarrow> h) s"
| "rx_rests Dollar s = (if s = [] \<or> s = [CHR 0x0A] then [s] else [])"

definition re_match :: "rx \<Rightarrow> string \<Rightarrow> bool" where
  \<comment> \<open>\<^verbatim>\<open>bool(pattern.match(s))\<close>\<close>
  "re_match p s = (rx_rests p s \<noteq> [])"

definition lit :: "char \<Rightarrow> rx" where
  "lit c = Cls (\<lambda>x. x = c)"

definition one_of :: "string \<Rightarrow> rx" where
  "one_of cs = Cls (\<lambda>x. x \<in> set cs)"

definition seqs :: "rx list \<Rightarrow> rx" where
  "seqs rs = foldr Seq rs Eps"

definition plus :: "rx \<Rightarrow> rx" where
  "plus r = Rep r 1 None"

definition star :: "rx \<Rightarrow> rx" where
  "star r = Rep r 0 None"

definition opt :: "rx \<Rightarrow> rx" where
  "opt r = Rep r 0 (Some 1)"

definition times :: "nat \<Rightarrow> rx \<Rightarrow> rx" where
  "times n r = Rep r n (Some n)"

definition dig :: rx where
  \<comment> \<open>\<^verbatim>\<open>\d\<close>\<close>
  "dig = Cls ascii_digit"

definition any_char :: rx where
  \<comment> \<open>\<^verbatim>\<open>.\<close>: any character but the newline\<close>
  "any_char = Cls (\<lambda>c. c \<noteq> CHR 0x0A)"

definition alpha :: "char \<Rightarrow> bool" where
  \<comment> \<open>\<^verbatim>\<open>[a-zA-Z]\<close>\<close>
  "alpha c = (in_range CHR ''a'' CHR ''z'' c \<or> in_range CHR ''A'' CHR ''Z'' c)"

definition alnum :: "char \<Rightarrow> bool" where
  \<comment> \<open>\<^verbatim>\<open>[a-zA-Z0-9]\<close>\<close>
  "alnum c = (alpha c \<or> in_range CHR ''0'' CHR ''9'' c)"

definition hex_char :: "char \<Rightarrow> bool" where
  \<comment> \<open>\<^verbatim>\<open>[a-fA-F0-9]\<close>\<close>
  "hex_char c = (in_range CHR ''a'' CHR ''f'' c \<or> in_range CHR ''A'' CHR ''F'' c
                 \<or> in_range CHR ''0'' CHR ''9'' c)"

definition hash_pattern :: rx where
  \<comment> \<open>\<^verbatim>\<open>^[a-fA-F0-9]{32,64}$\<close>, the same in every matcher and in luhn.py\<close>
  "hash_pattern = seqs [Rep (Cls hex_char) 32 (Some 64), Dollar]"

section \<open>Luhn validator (piileaktest/detectors/luhn.py)\<close>

definition digits_of_str :: "string \<Rightarrow> error + nat list" where
  \<comment> \<open>\<^verbatim>\<open>digits_of(n)\<close> for a string: \<^verbatim>\<open>[int(d) for d in str(n)]\<close>\<close>
  "digits_of_str s = mapM int_of_char s"

definition digits_of_nat :: "nat \<Rightarrow> nat list" where
  \<comment> \<open>\<^verbatim>\<open>digits_of(n)\<close> for a non-negative integer: its decimal digits\<close>
  "digits_of_nat n = map (\<lambda>c. cp c - 48) (str_nat n)"

fun step2 :: "'a list \<Rightarrow> 'a list" where
  \<comment> \<open>every second element, starting with the first\<close>
  "step2 [] = []"
| "step2 [x] = [x]"
| "step2 (x # y # zs) = x # step2 zs"

definition odd_digits :: "nat list \<Rightarrow> nat list" where
  \<comment> \<open>\<^verbatim>\<open>digits[-1::-2]\<close>\<close>
  "odd_digits digits = step2 (rev digits)"

definition even_digits :: "nat list \<Rightarrow> nat list" where
  \<comment> \<open>\<^verbatim>\<open>digits[-2::-2]\<close>\<close>
  "even_digits digits = step2 (tl (rev digits))"

definition luhn_checksum :: "string \<Rightarrow> error + bool" where
  "luhn_checksum card_number =
     bind (digits_of_str card_number) (\<lambda>digits.
       let checksum = sum_list (odd_digits digits);
           checksum = fold (\<lambda>d checksum. checksum + sum_list (digits_of_nat (d * 2)))
                        (even_digits digits) checksum
       in Inr (checksum mod 10 = 0))"

definition cleaned :: "string \<Rightarrow> string" where
  \<comment> \<open>\<^verbatim>\<open>re.sub(r'[\s\-]', '', value)\<close>\<close>
  "cleaned v = filter (\<lambda>c. \<not> (py_isspace_char c \<or> c = CHR ''-'')) v"

definition is_credit_card :: "string \<Rightarrow> error + bool" where
  "is_credit_card v =
     (let cleaned = cleaned v
      in if \<not> py_isdigit cleaned \<or> length cleaned < 13 \<or> length cleaned > 19
         then Inr False
         else luhn_checksum cleaned)"


definition detect_credit_card_masking :: "string \<Rightarrow> error + MaskingType" where
  "detect_credit_card_masking v =
     (if re_match hash_pattern v then Inr HASH
      else if CHR ''*'' \<in> set v \<or> upper_has_X v then Inr PARTIAL_MASK
      else bind (is_credit_card v) (\<lambda>valid. if valid then Inr PLAINTEXT else Inr PLAINTEXT))"

subsection \<open>The validator on strings of any code points\<close>

text \<open>
  A Python \<^verbatim>\<open>str\<close> may hold any code point of Unicode, so the validator is embedded a
  second time on lists of code points. What \<^verbatim>\<open>luhn.py\<close> asks about a character is answered
  by the Unicode tables of the interpreter; the three answers it uses are a parameter of the
  definitions, and nothing is assumed about them:
  \<^item> \<open>db_isspace\<close>: the character matches \<^verbatim>\<open>\s\<close> of \<^verbatim>\<open>re\<close>;
  \<^item> \<open>db_isdigit\<close>: \<^verbatim>\<open>str.isdigit\<close> holds of the character;
  \<^item> \<open>db_decimal\<close>: the value that \<^verbatim>\<open>int\<close> returns on the one-character string, and
    \<open>None\<close> where \<^verbatim>\<open>int\<close> raises \<^verbatim>\<open>ValueError\<close>.
\<close>

type_synonym ustring = "nat list"

record unicode_db =
  db_isspace :: "nat \<Rightarrow> bool"
  db_isdigit :: "nat \<Rightarrow> bool"
  db_decimal :: "nat \<Rightarrow> nat option"

definition int_of_code_point :: "unicode_db \<Rightarrow> nat \<Rightarrow> error + nat" where
  \<comment> \<open>\<^verbatim>\<open>int(d)\<close> for a one-character string \<^verbatim>\<open>d\<close>\<close>
  "int_of_code_point db c =
     (case db_decimal db c of None \<Rightarrow> Inl ValueError | Some d \<Rightarrow> Inr d)"

definition digits_of_ustr :: "unicode_db \<Rightarrow> ustring \<Rightarrow> error + nat list" where
  \<comment> \<open>\<^verbatim>\<open>digits_of(n)\<close> for a string: \<^verbatim>\<open>[int(d) for d in str(n)]\<close>\<close>
  "digits_of_ustr db s = mapM (int_of_code_point db) s"

definition luhn_checksum_u :: "unicode_db \<Rightarrow> ustring \<Rightarrow> error + bool" where
  "luhn_checksum_u db card_number =
     bind (digits_of_ustr db card_number) (\<lambda>digits.
       let checksum = sum_list (odd_digits digits);
           checksum = fold (\<lambda>d checksum. checksum + sum_list (digits_of_nat (d * 2)))
                        (even_digits digits) checksum
       in Inr (checksum mod 10 = 0))"

definition cleaned_u :: "unicode_db \<Rightarrow> ustring \<Rightarrow> ustring" where
  \<comment> \<open>\<^verbatim>\<open>re.sub(r'[\s\-]', '', value)\<close>; the hyphen is U+002D\<close>
  "cleaned_u db v = filter (\<lambda>c. \<not> (db_isspace db c \<or> c = 45)) v"

definition isdigit_u :: "unicode_db \<Rightarrow> ustring \<Rightarrow> bool" where
  \<comment> \<open>\<^verbatim>\<open>str.isdigit\<close>: at least one character, and all of them digits\<close>
  "isdigit_u db s = (s \<noteq> [] \<and> list_all (db_isdigit db) s)"

definition is_credit_card_u :: "unicode_db \<Rightarrow> ustring \<Rightarrow> error + bool" where
  "is_credit_card_u db v =
     (let cleaned = cleaned_u db v
      in if \<not> isdigit_u db cleaned \<or> length cleaned < 13 \<or> length cleaned > 19
         then Inr False
         else luhn_checksum_u db cleaned)"

section \<open>Value pattern matchers (piileaktest/detectors/value\_patterns.py)\<close>

definition email_pattern :: rx where
  \<comment> \<open>\<^verbatim>\<open>^[a-zA-Z0-9._%+-]+@[a-zA-Z0-9.-]+\.[a-zA-Z]{2,}$\<close>\<close>
  "email_pattern =
     seqs [plus (Cls (\<lambda>c. alnum c \<or> c \<in> set ''._%+-'')), lit CHR ''@'',
           plus (Cls (\<lambda>c. alnum c \<or> c \<in> set ''.-'')), lit CHR ''.'',
           Rep (Cls alpha) 2 None, Dollar]"

definition email_masked_pattern :: rx where
  \<comment> \<open>\<^verbatim>\<open>\*+@.*\.\w+\<close>\<close>
  "email_masked_pattern =
     seqs [plus (lit CHR ''*''), lit CHR ''@'', star any_char, lit CHR ''.'',
           plus (Cls py_isword_char)]"

definition email_matches :: "string \<Rightarrow> bool" where
  "email_matches v =
     (let v = strip v in re_match email_pattern v \<or> re_match email_masked_pattern v)"

definition email_detect_masking :: "string \<Rightarrow> MaskingType" where
  "email_detect_masking v =
     (if re_match hash_pattern v then HASH
      else if CHR ''*'' \<in> set v then PARTIAL_MASK
      else if re_match email_pattern v then PLAINTEXT
      else PLAINTEXT)"

definition phone_patterns :: "rx list" where
  \<comment> \<open>\<^verbatim>\<open>^\d{3}-\d{3}-\d{4}$\<close>, \<^verbatim>\<open>^\(\d{3}\)\s*\d{3}-\d{4}$\<close>, \<^verbatim>\<open>^\d{10}$\<close>,
      \<^verbatim>\<open>^\+1\d{10}$\<close>\<close>
  "phone_patterns =
     [seqs [times 3 dig, lit CHR ''-'', times 3 dig, lit CHR ''-'', times 4 dig, Dollar],
      seqs [lit CHR ''('', times 3 dig, lit CHR '')'', star (Cls py_isspace_char),
            times 3 dig, lit CHR ''-'', times 4 dig, Dollar],
      seqs [times 10 dig, Dollar],
      seqs [lit CHR ''+'', lit CHR ''1'', times 10 dig, Dollar]]"

definition phone_masked_patterns :: "rx list" where
  \<comment> \<open>\<^verbatim>\<open>\*+.*\d{4}\<close>, \<^verbatim>\<open>\(\*+\).*\d{4}\<close>\<close>
  "phone_masked_patterns =
     [seqs [plus (lit CHR ''*''), star any_char, times 4 dig],
      seqs [lit CHR ''('', plus (lit CHR ''*''), lit CHR '')'', star any_char, times 4 dig]]"

definition phone_matches :: "string \<Rightarrow> bool" where
  "phone_matches v =
     (let v = strip v
      in if list_ex (\<lambda>p. re_match p v) phone_patterns then True
         else if list_ex (\<lambda>p. re_match p v) phone_masked_patterns then True
         else False)"

definition phone_detect_masking :: "string \<Rightarrow> MaskingType" where
  "phone_detect_masking v =
     (if re_match hash_pattern v then HASH
      else if CHR ''*'' \<in> set v then PARTIAL_MASK
      else if list_ex (\<lambda>p. re_match p v) phone_patterns then PLAINTEXT
      else PLAINTEXT)"

definition ssn_patterns :: "rx list" where
  \<comment> \<open>\<^verbatim>\<open>^\d{3}-\d{2}-\d{4}$\<close>, \<^verbatim>\<open>^\d{9}$\<close>\<close>
  "ssn_patterns =
     [seqs [times 3 dig, lit CHR ''-'', times 2 dig, lit CHR ''-'', times 4 dig, Dollar],
      seqs [times 9 dig, Dollar]]"

definition ssn_masked_patterns :: "rx list" where
  \<comment> \<open>\<^verbatim>\<open>^[\*X]{3}-[\*X]{2}-\d{4}$\<close>, \<^verbatim>\<open>^[\*X]{5}\d{4}$\<close>\<close>
  "ssn_masked_patterns =
     [seqs [times 3 (one_of ''*X''), lit CHR ''-'', times 2 (one_of ''*X''), lit CHR ''-'',
            times 4 dig, Dollar],
      seqs [times 5 (one_of ''*X''), times 4 dig, Dollar]]"

definition ssn_matches :: "string \<Rightarrow> bool" where
  "ssn_matches v =
     (let v = strip v
      in if list_ex (\<lambda>p. re_match p v) ssn_patterns then True
         else if list_ex (\<lambda>p. re_match p v) ssn_masked_patterns then True
         else False)"

definition ssn_detect_masking :: "string \<Rightarrow> MaskingType" where
  "ssn_detect_masking v =
     (if re_match hash_pattern v then HASH
      else if CHR ''*'' \<in> set v \<or> CHR ''X'' \<in> set v then PARTIAL_MASK
      else if list_ex (\<lambda>p. re_match p v) ssn_patterns then PLAINTEXT
      else PLAINTEXT)"

definition octet :: rx where
  \<comment> \<open>\<^verbatim>\<open>(?:25[0-5]|2[0-4][0-9]|[01]?[0-9][0-9]?)\<close>\<close>
  "octet =
     Alt (seqs [lit CHR ''2'', lit CHR ''5'', Cls (in_range CHR ''0'' CHR ''5'')])
    (Alt (seqs [lit CHR ''2'', Cls (in_range CHR ''0'' CHR ''4''),
                Cls (in_range CHR ''0'' CHR ''9'')])
         (seqs [opt (one_of ''01''), Cls (in_range CHR ''0'' CHR ''9''),
                opt (Cls (in_range CHR ''0'' CHR ''9''))]))"

definition ip_pattern :: rx where
  \<comment> \<open>\<^verbatim>\<open>^(?:octet\.){3}octet$\<close>\<close>
  "ip_pattern = seqs [times 3 (seqs [octet, lit CHR ''.'']), octet, Dollar]"

definition ip_matches :: "string \<Rightarrow> bool" where
  "ip_matches v = re_match ip_pattern (strip v)"

definition ip_detect_masking :: "string \<Rightarrow> MaskingType" where
  "ip_detect_masking v =
     (if re_match hash_pattern v then HASH
      else if CHR ''*'' \<in> set v then PARTIAL_MASK
      else PLAINTEXT)"

definition zip_patterns :: "rx list" where
  \<comment> \<open>\<^verbatim>\<open>^\d{5}$\<close>, \<^verbatim>\<open>^\d{5}-\d{4}$\<close>\<close>
  "zip_patterns =
     [seqs [times 5 dig, Dollar],
      seqs [times 5 dig, lit CHR ''-'', times 4 dig, Dollar]]"

definition zip_matches :: "string \<Rightarrow> bool" where
  "zip_matches v = (let v = strip v in list_ex (\<lambda>p. re_match p v) zip_patterns)"

definition zip_detect_masking :: "string \<Rightarrow> MaskingType" where
  "zip_detect_masking v = PLAINTEXT"

definition dob_patterns :: "rx list" where
  \<comment> \<open>\<^verbatim>\<open>^\d{4}-\d{2}-\d{2}$\<close>, \<^verbatim>\<open>^\d{2}/\d{2}/\d{4}$\<close>, \<^verbatim>\<open>^\d{2}-\d{2}-\d{4}$\<close>\<close>
  "dob_patterns =
     [seqs [times 4 dig, lit CHR ''-'', times 2 dig, lit CHR ''-'', times 2 dig, Dollar],
      seqs [times 2 dig, lit CHR ''/'', times 2 dig, lit CHR ''/'', times 4 dig, Dollar],
      seqs [times 2 dig, lit CHR ''-'', times 2 dig, lit CHR ''-'', times 4 dig, Dollar]]"

definition dob_matches :: "string \<Rightarrow> bool" where
  "dob_matches v =
     (let v = strip v
      in list_ex (\<lambda>p. re_match p v \<and> (contains ''19'' v \<or> contains ''20'' v)) dob_patterns)"

definition dob_detect_masking :: "string \<Rightarrow> MaskingType" where
  "dob_detect_masking v =
     (if CHR ''*'' \<in> set v \<or> CHR ''X'' \<in> set v then PARTIAL_MASK else PLAINTEXT)"

definition account_pattern :: rx where
  \<comment> \<open>\<^verbatim>\<open>^\d{8,16}$\<close>\<close>
  "account_pattern = seqs [Rep dig 8 (Some 16), Dollar]"

definition account_masked_pattern :: rx where
  \<comment> \<open>\<^verbatim>\<open>^\*+\d{4}$\<close>\<close>
  "account_masked_pattern = seqs [plus (lit CHR ''*''), times 4 dig, Dollar]"

definition account_matches :: "string \<Rightarrow> bool" where
  "account_matches v =
     (let v = strip v in re_match account_pattern v \<or> re_match account_masked_pattern v)"

definition account_detect_masking :: "string \<Rightarrow> MaskingType" where
  "account_detect_masking v =
     (if re_match hash_pattern v then HASH
      else if CHR ''*'' \<in> set v then PARTIAL_MASK
      else PLAINTEXT)"

text \<open>A matcher object: its PII type and its two methods.\<close>

record PatternMatcher =
  pii_type_of :: PIIType
  matches :: "string \<Rightarrow> bool"
  detect_masking :: "string \<Rightarrow> MaskingType"

definition EmailMatcher :: PatternMatcher where
  "EmailMatcher = \<lparr>pii_type_of = EMAIL, matches = email_matches,
                    detect_masking = email_detect_masking\<rparr>"

definition PhoneMatcher :: PatternMatcher where
  "PhoneMatcher = \<lparr>pii_type_of = PHONE, matches = phone_matches,
                    detect_masking = phone_detect_masking\<rparr>"

definition SSNMatcher :: PatternMatcher where
  "SSNMatcher = \<lparr>pii_type_of = SSN, matches = ssn_matches,
                  detect_masking = ssn_detect_masking\<rparr>"

definition IPAddressMatcher :: PatternMatcher where
  "IPAddressMatcher = \<lparr>pii_type_of = IP_ADDRESS, matches = ip_matches,
                        detect_masking = ip_detect_masking\<rparr>"

definition ZipCodeMatcher :: PatternMatcher where
  "ZipCodeMatcher = \<lparr>pii_type_of = ZIP_CODE, matches = zip_matches,
                      detect_masking = zip_detect_masking\<rparr>"

definition DOBMatcher :: PatternMatcher where
  "DOBMatcher = \<lparr>pii_type_of = DOB, matches = dob_matches,
                  detect_masking = dob_detect_masking\<rparr>"

definition AccountNumberMatcher :: PatternMatcher where
  "AccountNumberMatcher = \<lparr>pii_type_of = ACCOUNT_NUMBER, matches = account_matches,
                            detect_masking = account_detect_masking\<rparr>"

definition MATCHERS :: "PatternMatcher list" where
  "MATCHERS = [EmailMatcher, PhoneMatcher, SSNMatcher, IPAddressMatcher, ZipCodeMatcher,
               DOBMatcher, AccountNumberMatcher]"

definition detect_pii_in_value :: "string \<Rightarrow> (PIIType \<times> MaskingType) list" where
  "detect_pii_in_value v =
     (if strip v = [] then []
      else let v = strip v
           in map (\<lambda>matcher. (pii_type_of matcher, detect_masking matcher v))
                (filter (\<lambda>matcher. matches matcher v) MATCHERS))"

section \<open>Entropy detector (piileaktest/detectors/entropy.py)\<close>

text \<open>Python's floats are modelled as real numbers.\<close>

definition char_freq :: "string \<Rightarrow> (char \<times> nat) list" where
  \<comment> \<open>\<^verbatim>\<open>freq[char] = freq.get(char, 0) + 1\<close> for each character\<close>
  "char_freq data =
     fold (\<lambda>char freq. dict_set freq char ((case map_of freq char of None \<Rightarrow> 0 | Some n \<Rightarrow> n) + 1))
       data []"

definition calculate_shannon_entropy :: "string \<Rightarrow> real" where
  "calculate_shannon_entropy data =
     (if data = [] then 0
      else let freq = char_freq data; len = length data
           in fold (\<lambda>count entropy.
                      let probability = real count / real len
                      in entropy - probability * log 2 probability)
                (map snd freq) 0)"

definition token_pattern :: rx where
  \<comment> \<open>\<^verbatim>\<open>^[a-zA-Z0-9_\-+=/.]{16,}$\<close>\<close>
  "token_pattern = seqs [Rep (Cls (\<lambda>c. alnum c \<or> c \<in> set ''_-+=/.'')) 16 None, Dollar]"

definition is_high_entropy_token :: "string \<Rightarrow> real \<Rightarrow> bool" where
  "is_high_entropy_token v threshold =
     (if length v < 16 then False
      else if \<not> re_match token_pattern v then False
      else calculate_shannon_entropy v \<ge> threshold)"

definition default_threshold :: real where
  \<comment> \<open>the default of \<^verbatim>\<open>threshold\<close>\<close>
  "default_threshold = 4.5"

section \<open>Redaction (piileaktest/utils/redaction.py)\<close>

definition mask_string :: "string \<Rightarrow> nat \<Rightarrow> string" where
  "mask_string s keep_chars =
     (if length s \<le> keep_chars then replicate (length s) CHR ''*''
      else take keep_chars s @ replicate (length s - keep_chars) CHR ''*'')"

definition char_at0 :: "string \<Rightarrow> error + char" where
  \<comment> \<open>\<^verbatim>\<open>s[0]\<close>\<close>
  "char_at0 s = (case s of [] \<Rightarrow> Inl IndexError | c # _ \<Rightarrow> Inr c)"

definition last4 :: "string \<Rightarrow> string" where
  \<comment> \<open>\<^verbatim>\<open>s[-4:]\<close>\<close>
  "last4 s = drop (length s - 4) s"

definition redact_email :: "string \<Rightarrow> error + string" where
  "redact_email email =
     (if CHR ''@'' \<notin> set email then Inr (mask_string email 1)
      else let local = takeWhile (\<lambda>c. c \<noteq> CHR ''@'') email;
               domain = tl (dropWhile (\<lambda>c. c \<noteq> CHR ''@'') email)
           in if CHR ''.'' \<in> set domain
              then let domain_name = takeWhile (\<lambda>c. c \<noteq> CHR ''.'') domain;
                       domain_ext = tl (dropWhile (\<lambda>c. c \<noteq> CHR ''.'') domain)
                   in bind (char_at0 local) (\<lambda>l0. bind (char_at0 domain_name) (\<lambda>d0.
                        Inr ([l0] @ ''***@'' @ [d0] @ ''***.'' @ domain_ext)))
              else bind (char_at0 local) (\<lambda>l0. bind (char_at0 domain) (\<lambda>d0.
                        Inr ([l0] @ ''***@'' @ [d0] @ ''***''))))"

definition redact_ssn :: "string \<Rightarrow> string" where
  "redact_ssn ssn = (if length ssn \<ge> 4 then ''***-**-'' @ last4 ssn else ''***'')"

definition redact_phone :: "string \<Rightarrow> string" where
  "redact_phone phone =
     (let digits = filter ascii_digit phone
      in if length digits \<ge> 4 then ''(***) ***-'' @ last4 digits else ''***'')"

definition redact_credit_card :: "string \<Rightarrow> string" where
  "redact_credit_card card_number =
     (let digits = filter ascii_digit card_number
      in if length digits \<ge> 4 then ''****'' @ last4 digits else ''****'')"

definition redact_value :: "string \<Rightarrow> string \<Rightarrow> error + string" where
  "redact_value v pii_type =
     (let key = lower pii_type
      in if key = ''email'' then redact_email v
         else if key = ''ssn'' then Inr (redact_ssn v)
         else if key = ''phone'' then Inr (redact_phone v)
         else if key = ''credit_card'' then Inr (redact_credit_card v)
         else Inr (mask_string v 1))"

section \<open>Findings, policies and results (piileaktest/models.py)\<close>

record Finding =
  dataset :: string
  column :: string
  pii_type :: PIIType
  masking_type :: MaskingType
  row_index :: "nat option"
  redacted_sample :: "string option"
  count :: nat
  severity :: Severity
  message :: string

record DatasetPolicy =
  name :: string
  path :: string
  format :: string
  allowed_pii_types :: "PIIType list"
  forbidden_pii_types :: "PIIType list"
  masking_required_for :: "PIIType list"
  hash_allowed_for :: "PIIType list"

record LineageEdge =
  source :: string
  target :: string

record SamplingConfig =
  mode :: string
  rows :: int

record ThresholdConfig =
  entropy_threshold :: real
  max_violations_to_show :: int
  fail_on_severity :: "Severity list"

record SuiteConfig =
  datasets :: "DatasetPolicy list"
  lineage :: "LineageEdge list"
  sampling :: SamplingConfig
  thresholds :: ThresholdConfig

record AssertionResult =
  assertion_type :: string
  ar_dataset :: string
  passed :: bool
  findings :: "Finding list"
  ar_message :: string
  ar_severity :: Severity

text \<open>\<open>SuiteResult\<close> without its timestamp, execution time and summary dictionary.\<close>

record SuiteResult =
  suite_name :: string
  total_datasets :: nat
  total_assertions :: nat
  passed_assertions :: nat
  failed_assertions :: nat
  assertion_results :: "AssertionResult list"
  overall_passed :: bool

definition should_fail_ci :: "SuiteResult \<Rightarrow> bool" where
  "should_fail_ci self =
     (let critical_high_failures =
            filter (\<lambda>ar. \<not> passed ar \<and> ar_severity ar \<in> set [CRITICAL, HIGH])
              (assertion_results self)
      in length critical_high_failures > 0)"

definition run_fails_ci :: "SuiteConfig \<Rightarrow> SuiteResult \<Rightarrow> bool" where
  \<comment> \<open>cli.py, \<^verbatim>\<open>run\<close>: with the suite's configuration loaded, the command exits with
      code 1 when \<^verbatim>\<open>suite_result.should_fail_ci()\<close> holds\<close>
  "run_fails_ci suite_config suite_result = should_fail_ci suite_result"

section \<open>The assertions (piileaktest/assertions)\<close>

text \<open>
  A \<^verbatim>\<open>DataFrame\<close> is the list of its columns in order, each with its name and its cells
  in row order; the index is the default one, so the label of a row is its position. A cell
  is \<open>None\<close> where \<^verbatim>\<open>pd.isna\<close> holds and \<open>Some s\<close> with \<open>s\<close> the cell's
  \<^verbatim>\<open>str(value)\<close> otherwise.
\<close>

type_synonym cell = "string option"
type_synonym dataframe = "(string \<times> cell list) list"
type_synonym violation = "nat \<times> string \<times> MaskingType"
type_synonym col_findings = "(PIIType \<times> violation list) list"

definition record_violation :: "int \<Rightarrow> PIIType \<Rightarrow> violation \<Rightarrow> col_findings \<Rightarrow> col_findings" where
  \<comment> \<open>\<^verbatim>\<open>if pii_type not in col_findings: col_findings[pii_type] = []\<close>, then
      \<^verbatim>\<open>if len(col_findings[pii_type]) < max_violations: col_findings[pii_type].append(v)\<close>\<close>
  "record_violation max_violations t v col_findings =
     (let col_findings = (if map_of col_findings t = None then dict_set col_findings t []
                          else col_findings)
      in case map_of col_findings t of
           None \<Rightarrow> col_findings
         | Some vs \<Rightarrow> if int (length vs) < max_violations
                      then dict_set col_findings t (vs @ [v]) else col_findings)"

fun scan_rows :: "(nat \<Rightarrow> cell \<Rightarrow> col_findings \<Rightarrow> error + col_findings) \<Rightarrow> nat \<Rightarrow> cell list
                    \<Rightarrow> col_findings \<Rightarrow> error + col_findings" where
  \<comment> \<open>\<^verbatim>\<open>for idx, value in df[col].items()\<close>, from row \<open>idx\<close> on\<close>
  "scan_rows body idx [] col_findings = Inr col_findings"
| "scan_rows body idx (v # vs) col_findings =
     bind (body idx v col_findings) (scan_rows body (Suc idx) vs)"

definition for_columns :: "(string \<times> cell list \<Rightarrow> error + Finding list) \<Rightarrow> dataframe
                             \<Rightarrow> error + Finding list" where
  \<comment> \<open>\<^verbatim>\<open>for col in df.columns\<close>, the findings of each column appended in turn\<close>
  "for_columns body df = bind (mapM body df) (\<lambda>fss. Inr (concat fss))"

subsection \<open>no\_pii\_assertion.py\<close>

definition forbidden_cell :: "PIIType set \<Rightarrow> int \<Rightarrow> nat \<Rightarrow> cell \<Rightarrow> col_findings
                                \<Rightarrow> error + col_findings" where
  "forbidden_cell forbidden_types max_violations idx v col_findings =
     (case v of
        None \<Rightarrow> Inr col_findings
      | Some v \<Rightarrow>
          let value_str = strip v
          in if value_str = [] then Inr col_findings
             else
               let detected = detect_pii_in_value value_str;
                   col_findings =
                     fold (\<lambda>(t, m) cf.
                             if t \<in> forbidden_types
                             then record_violation max_violations t (idx, value_str, m) cf
                             else cf)
                       detected col_findings
               in bind (if CREDIT_CARD \<in> forbidden_types
                        then bind (is_credit_card value_str) (\<lambda>valid.
                               if valid
                               then bind (detect_credit_card_masking value_str) (\<lambda>m.
                                      Inr (record_violation max_violations CREDIT_CARD
                                             (idx, value_str, m) col_findings))
                               else Inr col_findings)
                        else Inr col_findings)
                    (\<lambda>col_findings.
                       if HIGH_ENTROPY_TOKEN \<in> forbidden_types
                          \<and> is_high_entropy_token value_str default_threshold
                       then Inr (record_violation max_violations HIGH_ENTROPY_TOKEN
                                   (idx, value_str, PLAINTEXT) col_findings)
                       else Inr col_findings))"

definition forbidden_finding :: "DatasetPolicy \<Rightarrow> string \<Rightarrow> PIIType \<times> violation list
                                   \<Rightarrow> error + Finding list" where
  "forbidden_finding policy col entry =
     (case entry of (t, violations) \<Rightarrow>
        (case violations of
           [] \<Rightarrow> Inr []
         | first_violation # _ \<Rightarrow>
             bind (redact_value (fst (snd first_violation)) (pii_value t)) (\<lambda>sample.
               Inr [\<lparr>dataset = name policy, column = col, pii_type = t,
                     masking_type = snd (snd first_violation),
                     row_index = Some (fst first_violation),
                     redacted_sample = Some sample,
                     count = length violations,
                     severity = CRITICAL,
                     message = ''Forbidden PII type '' @ quoted (pii_value t)
                       @ '' found in column '' @ quoted col @ '' (''
                       @ str_nat (length violations) @ '' occurrence(s))''\<rparr>])))"

definition forbidden_column :: "DatasetPolicy \<Rightarrow> int \<Rightarrow> string \<times> cell list
                                  \<Rightarrow> error + Finding list" where
  "forbidden_column policy max_violations c =
     (case c of (col, cells) \<Rightarrow>
        bind (scan_rows (forbidden_cell (set (forbidden_pii_types policy)) max_violations)
                0 cells [])
          (\<lambda>col_findings.
             bind (mapM (forbidden_finding policy col) col_findings) (\<lambda>fs. Inr (concat fs))))"

definition assert_no_forbidden_pii :: "dataframe \<Rightarrow> DatasetPolicy \<Rightarrow> int
                                         \<Rightarrow> error + AssertionResult" where
  "assert_no_forbidden_pii df policy max_violations =
     (let forbidden_types = set (forbidden_pii_types policy)
      in if forbidden_types = {}
         then Inr \<lparr>assertion_type = ''no_forbidden_pii'', ar_dataset = name policy,
                    passed = True, findings = [],
                    ar_message = ''No forbidden PII types specified in policy'',
                    ar_severity = INFO\<rparr>
         else bind (for_columns (forbidden_column policy max_violations) df) (\<lambda>findings.
                let passed = (length findings = 0);
                    severity = (if \<not> passed then CRITICAL else INFO);
                    message =
                      (if passed then ''PASS: No forbidden PII detected in '' @ name policy
                       else ''FAIL: '' @ name policy @ '' contains ''
                            @ str_nat (length findings) @ '' forbidden PII type(s) with ''
                            @ str_nat (sum_list (map count findings))
                            @ '' total violation(s)'')
                in Inr \<lparr>assertion_type = ''no_forbidden_pii'', ar_dataset = name policy,
                         passed = passed, findings = findings, ar_message = message,
                         ar_severity = severity\<rparr>))"

subsection \<open>masking\_assertion.py\<close>

definition is_violation :: "PIIType set \<Rightarrow> PIIType \<Rightarrow> MaskingType \<Rightarrow> bool" where
  \<comment> \<open>the value of \<^verbatim>\<open>is_violation\<close> after the checks on \<^verbatim>\<open>masking_type\<close>, the same
      for the pattern matchers and for the credit card check\<close>
  "is_violation hash_allowed t m =
     (if m = PLAINTEXT then True
      else if m = HASH then (if t \<notin> hash_allowed then True else False)
      else False)"

definition masking_cell :: "PIIType set \<Rightarrow> PIIType set \<Rightarrow> int \<Rightarrow> nat \<Rightarrow> cell \<Rightarrow> col_findings
                              \<Rightarrow> error + col_findings" where
  "masking_cell masking_required hash_allowed max_violations idx v col_findings =
     (case v of
        None \<Rightarrow> Inr col_findings
      | Some v \<Rightarrow>
          let value_str = strip v
          in if value_str = [] then Inr col_findings
             else
               let detected = detect_pii_in_value value_str;
                   col_findings =
                     fold (\<lambda>(t, m) cf.
                             if t \<in> masking_required
                             then (if is_violation hash_allowed t m
                                   then record_violation max_violations t (idx, value_str, m) cf
                                   else cf)
                             else cf)
                       detected col_findings
               in if CREDIT_CARD \<in> masking_required
                  then bind (is_credit_card value_str) (\<lambda>valid.
                         if valid
                         then bind (detect_credit_card_masking value_str) (\<lambda>m.
                                if is_violation hash_allowed CREDIT_CARD m
                                then Inr (record_violation max_violations CREDIT_CARD
                                            (idx, value_str, m) col_findings)
                                else Inr col_findings)
                         else Inr col_findings)
                  else Inr col_findings)"

definition masking_finding :: "DatasetPolicy \<Rightarrow> string \<Rightarrow> PIIType \<times> violation list
                                 \<Rightarrow> error + Finding list" where
  "masking_finding policy col entry =
     (case entry of (t, violations) \<Rightarrow>
        (case violations of
           [] \<Rightarrow> Inr []
         | first_violation # _ \<Rightarrow>
             let (severity, msg_detail) =
                   (if snd (snd first_violation) = PLAINTEXT
                    then (CRITICAL, ''not masked (plaintext detected)'')
                    else if snd (snd first_violation) = HASH
                    then (HIGH, ''hashed but hashing not allowed by policy'')
                    else (MEDIUM, ''masking insufficient''))
             in bind (redact_value (fst (snd first_violation)) (pii_value t)) (\<lambda>sample.
                  Inr [\<lparr>dataset = name policy, column = col, pii_type = t,
                        masking_type = snd (snd first_violation),
                        row_index = Some (fst first_violation),
                        redacted_sample = Some sample,
                        count = length violations,
                        severity = severity,
                        message = ''Required masking not applied to '' @ quoted (pii_value t)
                          @ '' in column '' @ quoted col @ '' (''
                          @ str_nat (length violations) @ '' occurrence(s)): ''
                          @ msg_detail\<rparr>])))"

definition masking_column :: "DatasetPolicy \<Rightarrow> int \<Rightarrow> string \<times> cell list
                                \<Rightarrow> error + Finding list" where
  "masking_column policy max_violations c =
     (case c of (col, cells) \<Rightarrow>
        bind (scan_rows (masking_cell (set (masking_required_for policy))
                           (set (hash_allowed_for policy)) max_violations)
                0 cells [])
          (\<lambda>col_findings.
             bind (mapM (masking_finding policy col) col_findings) (\<lambda>fs. Inr (concat fs))))"

definition max_severity :: "Severity list \<Rightarrow> Severity" where
  \<comment> \<open>\<^verbatim>\<open>max(severities, default=Severity.INFO)\<close>: the members of \<^verbatim>\<open>Severity\<close> are strings
      and compare as their values do; the first of several largest ones is returned\<close>
  "max_severity xs =
     (case xs of
        [] \<Rightarrow> INFO
      | x # rest \<Rightarrow>
          fold (\<lambda>y m. if str_less (severity_value m) (severity_value y) then y else m) rest x)"

definition assert_masking_applied :: "dataframe \<Rightarrow> DatasetPolicy \<Rightarrow> int
                                        \<Rightarrow> error + AssertionResult" where
  "assert_masking_applied df policy max_violations =
     (let masking_required = set (masking_required_for policy)
      in if masking_required = {}
         then Inr \<lparr>assertion_type = ''masking_applied'', ar_dataset = name policy,
                    passed = True, findings = [],
                    ar_message = ''No masking requirements specified in policy'',
                    ar_severity = INFO\<rparr>
         else bind (for_columns (masking_column policy max_violations) df) (\<lambda>findings.
                let passed = (length findings = 0);
                    max_severity = max_severity (map severity findings);
                    message =
                      (if passed
                       then ''PASS: All required masking properly applied in '' @ name policy
                       else ''FAIL: '' @ name policy @ '' has ''
                            @ str_nat (length findings) @ '' masking violation(s) with ''
                            @ str_nat (sum_list (map count findings))
                            @ '' total occurrence(s)'')
                in Inr \<lparr>assertion_type = ''masking_applied'', ar_dataset = name policy,
                         passed = passed, findings = findings, ar_message = message,
                         ar_severity = (if \<not> passed then max_severity else INFO)\<rparr>))"

subsection \<open>leakage\_path\_assertion.py\<close>

definition detect_types_cell :: "cell \<Rightarrow> PIIType set \<Rightarrow> error + PIIType set" where
  \<comment> \<open>the body of the loops of \<^verbatim>\<open>_detect_pii_types_in_dataframe\<close>\<close>
  "detect_types_cell v found_types =
     (case v of
        None \<Rightarrow> Inr found_types
      | Some v \<Rightarrow>
          let value_str = strip v
          in if value_str = [] then Inr found_types
             else
               let detected = detect_pii_in_value value_str;
                   found_types = fold (\<lambda>(t, m) found. insert t found) detected found_types
               in bind (is_credit_card value_str) (\<lambda>valid.
                    let found_types = (if valid then insert CREDIT_CARD found_types
                                       else found_types);
                        found_types = (if is_high_entropy_token value_str default_threshold
                                       then insert HIGH_ENTROPY_TOKEN found_types
                                       else found_types)
                    in Inr found_types))"

fun detect_types_cells :: "cell list \<Rightarrow> PIIType set \<Rightarrow> error + PIIType set" where
  \<comment> \<open>\<^verbatim>\<open>for value in df[col]\<close>\<close>
  "detect_types_cells [] found_types = Inr found_types"
| "detect_types_cells (v # vs) found_types =
     bind (detect_types_cell v found_types) (detect_types_cells vs)"

fun detect_types_columns :: "dataframe \<Rightarrow> PIIType set \<Rightarrow> error + PIIType set" where
  \<comment> \<open>\<^verbatim>\<open>for col in df.columns\<close>\<close>
  "detect_types_columns [] found_types = Inr found_types"
| "detect_types_columns (c # cs) found_types =
     bind (detect_types_cells (snd c) found_types) (detect_types_columns cs)"

definition detect_pii_types_in_dataframe :: "dataframe \<Rightarrow> error + PIIType set" where
  \<comment> \<open>\<^verbatim>\<open>_detect_pii_types_in_dataframe\<close>\<close>
  "detect_pii_types_in_dataframe df = detect_types_columns df {}"

definition leakage_cell :: "PIIType set \<Rightarrow> int \<Rightarrow> nat \<Rightarrow> cell \<Rightarrow> col_findings
                              \<Rightarrow> error + col_findings" where
  "leakage_cell risky_types max_violations idx v col_findings =
     (case v of
        None \<Rightarrow> Inr col_findings
      | Some v \<Rightarrow>
          let value_str = strip v
          in if value_str = [] then Inr col_findings
             else
               let detected = detect_pii_in_value value_str;
                   col_findings =
                     fold (\<lambda>(t, m) cf.
                             if t \<in> risky_types
                             then record_violation max_violations t (idx, value_str, m) cf
                             else cf)
                       detected col_findings
               in bind (if CREDIT_CARD \<in> risky_types
                        then bind (is_credit_card value_str) (\<lambda>valid.
                               if valid
                               then bind (detect_credit_card_masking value_str) (\<lambda>m.
                                      Inr (record_violation max_violations CREDIT_CARD
                                             (idx, value_str, m) col_findings))
                               else Inr col_findings)
                        else Inr col_findings)
                    (\<lambda>col_findings.
                       if HIGH_ENTROPY_TOKEN \<in> risky_types
                          \<and> is_high_entropy_token value_str default_threshold
                       then Inr (record_violation max_violations HIGH_ENTROPY_TOKEN
                                   (idx, value_str, PLAINTEXT) col_findings)
                       else Inr col_findings))"

definition leakage_finding :: "DatasetPolicy \<Rightarrow> DatasetPolicy \<Rightarrow> string
                                 \<Rightarrow> PIIType \<times> violation list \<Rightarrow> error + Finding list" where
  "leakage_finding source_policy target_policy col entry =
     (case entry of (t, violations) \<Rightarrow>
        (case violations of
           [] \<Rightarrow> Inr []
         | first_violation # _ \<Rightarrow>
             bind (redact_value (fst (snd first_violation)) (pii_value t)) (\<lambda>sample.
               Inr [\<lparr>dataset = name target_policy, column = col, pii_type = t,
                     masking_type = snd (snd first_violation),
                     row_index = Some (fst first_violation),
                     redacted_sample = Some sample,
                     count = length violations,
                     severity = CRITICAL,
                     message = ''PII LEAKAGE: '' @ quoted (pii_value t) @ '' leaked from ''
                       @ name source_policy @ '' to '' @ name target_policy
                       @ '' in column '' @ quoted col @ '' (''
                       @ str_nat (length violations) @ '' occurrence(s))''\<rparr>])))"

definition leakage_column :: "DatasetPolicy \<Rightarrow> DatasetPolicy \<Rightarrow> PIIType set \<Rightarrow> int
                                \<Rightarrow> string \<times> cell list \<Rightarrow> error + Finding list" where
  "leakage_column source_policy target_policy risky_types max_violations c =
     (case c of (col, cells) \<Rightarrow>
        bind (scan_rows (leakage_cell risky_types max_violations) 0 cells [])
          (\<lambda>col_findings.
             bind (mapM (leakage_finding source_policy target_policy col) col_findings)
               (\<lambda>fs. Inr (concat fs))))"

definition assert_no_pii_leakage :: "dataframe \<Rightarrow> dataframe \<Rightarrow> DatasetPolicy \<Rightarrow> DatasetPolicy
                                       \<Rightarrow> LineageEdge \<Rightarrow> int \<Rightarrow> error + AssertionResult" where
  "assert_no_pii_leakage source_df target_df source_policy target_policy lineage_edge
       max_violations =
     (let target_forbidden = set (forbidden_pii_types target_policy);
          flow = name source_policy @ '' -> '' @ name target_policy
      in if target_forbidden = {}
         then Inr \<lparr>assertion_type = ''no_pii_leakage'', ar_dataset = flow,
                    passed = True, findings = [],
                    ar_message = ''No forbidden PII types in target policy'',
                    ar_severity = INFO\<rparr>
         else
           bind (detect_pii_types_in_dataframe source_df) (\<lambda>source_pii_types.
             let risky_types = target_forbidden \<inter> source_pii_types
             in if risky_types = {}
                then Inr \<lparr>assertion_type = ''no_pii_leakage'', ar_dataset = flow,
                           passed = True, findings = [],
                           ar_message = ''No risky PII types flow from '' @ name source_policy
                             @ '' to '' @ name target_policy,
                           ar_severity = INFO\<rparr>
                else
                  bind (for_columns
                          (leakage_column source_policy target_policy risky_types max_violations)
                          target_df)
                    (\<lambda>findings.
                       let passed = (length findings = 0);
                           severity = (if \<not> passed then CRITICAL else INFO);
                           message =
                             (if passed
                              then ''PASS: No PII leakage detected from '' @ name source_policy
                                   @ '' to '' @ name target_policy
                              else ''FAIL: ''
                                   @ str_nat (length (remdups (map pii_type findings)))
                                   @ '' PII type(s) leaked from '' @ name source_policy
                                   @ '' to '' @ name target_policy @ '' (''
                                   @ str_nat (sum_list (map count findings))
                                   @ '' total occurrence(s))'')
                       in Inr \<lparr>assertion_type = ''no_pii_leakage'', ar_dataset = flow,
                                passed = passed, findings = findings, ar_message = message,
                                ar_severity = severity\<rparr>)))"

section \<open>Cycle detection (piileaktest/lineage/graph\_trace.py)\<close>

type_synonym graph = "(string \<times> string list) list"

record dfs_state =
  visited :: "string set"
  rec_stack :: "string set"
  cycles :: "string list list"

definition build_graph :: "LineageEdge list \<Rightarrow> graph" where
  "build_graph edges =
     fold (\<lambda>edge graph.
             let graph = (if map_of graph (source edge) = None
                          then dict_set graph (source edge) [] else graph)
             in case map_of graph (source edge) of
                  None \<Rightarrow> graph
                | Some ts \<Rightarrow> dict_set graph (source edge) (ts @ [target edge]))
       edges []"

fun index_of :: "string list \<Rightarrow> string \<Rightarrow> error + nat" where
  \<comment> \<open>\<^verbatim>\<open>path.index(x)\<close>\<close>
  "index_of [] x = Inl ValueError"
| "index_of (y # ys) x = (if y = x then Inr 0 else bind (index_of ys x) (\<lambda>i. Inr (Suc i)))"

text \<open>
  The nested function \<^verbatim>\<open>dfs\<close> calls itself; \<open>depth\<close> is the number of nested calls the
  interpreter still allows, and a call beyond it raises \<^verbatim>\<open>RecursionError\<close>. The sets
  \<^verbatim>\<open>visited\<close> and \<^verbatim>\<open>rec_stack\<close> and the list \<^verbatim>\<open>cycles\<close> of the enclosing function
  are passed through as a state; \<open>pth\<close> is the argument \<^verbatim>\<open>path\<close>.
\<close>

fun dfs :: "nat \<Rightarrow> graph \<Rightarrow> string \<Rightarrow> string list \<Rightarrow> dfs_state \<Rightarrow> error + dfs_state"
  and dfs_neighbors :: "nat \<Rightarrow> graph \<Rightarrow> string list \<Rightarrow> string list \<Rightarrow> dfs_state
                          \<Rightarrow> error + dfs_state" where
  "dfs 0 graph node pth st = Inl RecursionError"
| "dfs (Suc depth) graph node pth st =
     (let st = st\<lparr>visited := insert node (visited st)\<rparr>;
          st = st\<lparr>rec_stack := insert node (rec_stack st)\<rparr>;
          pth = pth @ [node]
      in bind (case map_of graph node of
                 None \<Rightarrow> Inr st
               | Some neighbors \<Rightarrow> dfs_neighbors depth graph neighbors pth st)
           (\<lambda>st. if node \<in> rec_stack st
                  then Inr (st\<lparr>rec_stack := rec_stack st - {node}\<rparr>)
                  else Inl KeyError))"
| "dfs_neighbors depth graph [] pth st = Inr st"
| "dfs_neighbors depth graph (neighbor # rest) pth st =
     bind (if neighbor \<notin> visited st then dfs depth graph neighbor pth st
           else if neighbor \<in> rec_stack st
           then bind (index_of pth neighbor) (\<lambda>cycle_start.
                  Inr (st\<lparr>cycles := cycles st @ [drop cycle_start pth @ [neighbor]]\<rparr>))
           else Inr st)
       (dfs_neighbors depth graph rest pth)"

fun dfs_roots :: "nat \<Rightarrow> graph \<Rightarrow> string list \<Rightarrow> dfs_state \<Rightarrow> error + dfs_state" where
  \<comment> \<open>\<^verbatim>\<open>for dataset in graph: if dataset not in visited: dfs(dataset, [])\<close>\<close>
  "dfs_roots depth graph [] st = Inr st"
| "dfs_roots depth graph (d # ds) st =
     bind (if d \<notin> visited st then dfs depth graph d [] st else Inr st)
       (dfs_roots depth graph ds)"

definition detect_cycles :: "nat \<Rightarrow> SuiteConfig \<Rightarrow> error + string list list" where
  "detect_cycles depth config =
     (let graph = build_graph (lineage config)
      in bind (dfs_roots depth graph (map fst graph)
                 \<lparr>visited = {}, rec_stack = {}, cycles = []\<rparr>)
           (\<lambda>st. Inr (cycles st)))"

section \<open>The Luhn rule as the specification words it\<close>

fun digit_sum :: "nat \<Rightarrow> nat" where
  \<comment> \<open>the sum of the decimal digits of a number\<close>
  "digit_sum n = (if n < 10 then n else digit_sum (n div 10) + n mod 10)"

definition from_right :: "nat list \<Rightarrow> nat \<Rightarrow> nat" where
  \<comment> \<open>the digit at place \<open>i\<close> counted from the rightmost one, which is place 0\<close>
  "from_right ds i = rev ds ! i"

definition luhn_total_spec :: "nat list \<Rightarrow> nat" where
  \<comment> \<open>every second digit from the rightmost is doubled and the digits of the doubled value
      are summed; the other digits are added as they are\<close>
  "luhn_total_spec ds =
     (\<Sum>i<length ds. if odd i then digit_sum (2 * from_right ds i) else from_right ds i)"

definition digit_val :: "char \<Rightarrow> nat" where
  "digit_val c = cp c - 48"

definition decimal_digit :: "unicode_db \<Rightarrow> nat \<Rightarrow> bool" where
  \<comment> \<open>a digit with a value to add up: \<^verbatim>\<open>str.isdigit\<close> holds of it and \<^verbatim>\<open>int\<close> gives its
      value. In Unicode every character with a decimal value is a digit, so these are the
      decimal digits, of any script\<close>
  "decimal_digit db x = (db_isdigit db x \<and> db_decimal db x \<noteq> None)"

definition decimal_value :: "unicode_db \<Rightarrow> nat \<Rightarrow> nat" where
  "decimal_value db x = (case db_decimal db x of Some d \<Rightarrow> d | None \<Rightarrow> 0)"

definition is_credit_card_spec :: "unicode_db \<Rightarrow> ustring \<Rightarrow> bool" where
  \<comment> \<open>the rule of the specification: after removing whitespace and hyphens, only digits,
      13 to 19 of them, and a Luhn total divisible by 10\<close>
  "is_credit_card_spec db v =
     (let c = filter (\<lambda>x. \<not> db_isspace db x \<and> x \<noteq> 45) v
      in list_all (decimal_digit db) c \<and> 13 \<le> length c \<and> length c \<le> 19
         \<and> luhn_total_spec (map (decimal_value db) c) mod 10 = 0)"

definition latin1_db :: unicode_db where
  \<comment> \<open>the Unicode tables on U+0000 to U+00FF: the whitespace, the digits (with the
      superscripts U+00B2, U+00B3 and U+00B9) and the decimal values\<close>
  "latin1_db =
     \<lparr>db_isspace = (\<lambda>n. (9 \<le> n \<and> n \<le> 13) \<or> (28 \<le> n \<and> n \<le> 32) \<or> n = 133 \<or> n = 160),
      db_isdigit = (\<lambda>n. (48 \<le> n \<and> n \<le> 57) \<or> n = 178 \<or> n = 179 \<or> n = 185),
      db_decimal = (\<lambda>n. if 48 \<le> n \<and> n \<le> 57 then Some (n - 48) else None)\<rparr>"

definition arabic_indic_db :: unicode_db where
  \<comment> \<open>the same tables with the Arabic-Indic digits U+0660 to U+0669\<close>
  "arabic_indic_db =
     \<lparr>db_isspace = db_isspace latin1_db,
      db_isdigit = (\<lambda>n. db_isdigit latin1_db n \<or> (1632 \<le> n \<and> n \<le> 1641)),
      db_decimal = (\<lambda>n. if 1632 \<le> n \<and> n \<le> 1641 then Some (n - 1632)
                         else db_decimal latin1_db n)\<rparr>"

definition arabic_indic_card :: ustring where
  \<comment> \<open>4532015112830366 written with Arabic-Indic digits\<close>
  "arabic_indic_card =
     [1636, 1637, 1635, 1634, 1632, 1633, 1637, 1633, 1633, 1634, 1640, 1635, 1632, 1635, 1638,
      1638]"

definition detected_occurrence :: "string \<Rightarrow> PIIType \<Rightarrow> MaskingType \<Rightarrow> bool" where
  \<comment> \<open>the scan of a cell value \<open>v\<close> detects type \<open>t\<close> with masking \<open>m\<close>: by a pattern
      matcher, or by the credit card check\<close>
  "detected_occurrence v t m =
     ((t, m) \<in> set (detect_pii_in_value v)
      \<or> (t = CREDIT_CARD \<and> is_credit_card v = Inr True \<and> detect_credit_card_masking v = Inr m))"

definition violation_rule :: "PIIType list \<Rightarrow> PIIType \<Rightarrow> MaskingType \<Rightarrow> bool" where
  \<comment> \<open>the rule of the specification: plaintext, or a hash of a type that may not be hashed\<close>
  "violation_rule hash_allowed t m = (m = PLAINTEXT \<or> (m = HASH \<and> t \<notin> set hash_allowed))"

definition recorded_in :: "cell list \<Rightarrow> PIIType \<Rightarrow> violation \<Rightarrow> bool" where
  \<comment> \<open>the recorded violation \<open>(idx, v, m)\<close> is a detected occurrence in row \<open>idx\<close> of the
      column\<close>
  "recorded_in cells t x =
     (case x of (idx, v, m) \<Rightarrow>
        idx < length cells \<and> (\<exists>raw. cells ! idx = Some raw \<and> v = strip raw) \<and> v \<noteq> []
        \<and> detected_occurrence v t m)"

section \<open>Auxiliary notions of the proofs\<close>

definition luhn_weighted :: "nat list \<Rightarrow> nat" where
  \<comment> \<open>the checksum of \<open>luhn_checksum\<close> on the reversed digits\<close>
  "luhn_weighted r = sum_list (step2 r) + sum_list (map (\<lambda>d. digit_sum (d * 2)) (step2 (tl r)))"

definition luhn_weight :: "nat \<Rightarrow> nat \<Rightarrow> nat" where
  \<comment> \<open>what the digit \<open>d\<close> at place \<open>i\<close> from the right adds to the checksum\<close>
  "luhn_weight i d = (if odd i then digit_sum (2 * d) else d)"

definition bucket :: "col_findings \<Rightarrow> PIIType \<Rightarrow> violation list" where
  \<comment> \<open>the violations recorded for a type, none if the type is not a key\<close>
  "bucket cf t = (case map_of cf t of None \<Rightarrow> [] | Some vs \<Rightarrow> vs)"

definition buckets_inv :: "(PIIType \<Rightarrow> violation list \<Rightarrow> bool) \<Rightarrow> col_findings \<Rightarrow> bool" where
  \<comment> \<open>the keys are distinct and every bucket satisfies \<open>R\<close>\<close>
  "buckets_inv R cf = (distinct (map fst cf) \<and> (\<forall>t. R t (bucket cf t)))"

definition only_types :: "PIIType set \<Rightarrow> PIIType \<Rightarrow> violation list \<Rightarrow> bool" where
  "only_types ts t vs = (vs = [] \<or> t \<in> ts)"

definition sound_bucket :: "PIIType set \<Rightarrow> PIIType list \<Rightarrow> cell list \<Rightarrow> PIIType
                              \<Rightarrow> violation list \<Rightarrow> bool" where
  "sound_bucket req ha cells t vs =
     (\<forall>x \<in> set vs. t \<in> req \<and> recorded_in cells t x \<and> violation_rule ha t (snd (snd x)))"

definition capped :: "int \<Rightarrow> PIIType \<Rightarrow> violation list \<Rightarrow> bool" where
  "capped max_violations t vs = (vs = [] \<or> int (length vs) \<le> max_violations)"

text \<open>Inputs of the examples.\<close>

definition flow_policy :: "string \<Rightarrow> PIIType list \<Rightarrow> PIIType list \<Rightarrow> DatasetPolicy" where
  "flow_policy n allowed forbidden =
     \<lparr>name = n, path = n @ ''.csv'', format = ''csv'', allowed_pii_types = allowed,
      forbidden_pii_types = forbidden, masking_required_for = [], hash_allowed_for = []\<rparr>"

definition masking_policy :: "PIIType list \<Rightarrow> PIIType list \<Rightarrow> DatasetPolicy" where
  "masking_policy required hash_allowed =
     \<lparr>name = ''customers'', path = ''customers.csv'', format = ''csv'', allowed_pii_types = [],
      forbidden_pii_types = [], masking_required_for = required,
      hash_allowed_for = hash_allowed\<rparr>"

definition three_cycle_config :: SuiteConfig where
  "three_cycle_config =
     \<lparr>datasets = [], 
      lineage = [\<lparr>source = ''A'', target = ''B''\<rparr>, \<lparr>source = ''B'', target = ''C''\<rparr>,
                 \<lparr>source = ''C'', target = ''A''\<rparr>],
      sampling = \<lparr>mode = ''head'', rows = 1000\<rparr>,
      thresholds = \<lparr>entropy_threshold = 4.5, max_violations_to_show = 10,
                     fail_on_severity = [CRITICAL, HIGH]\<rparr>\<rparr>"

definition two_results :: "Severity \<Rightarrow> SuiteResult" where
  "two_results sev =
     \<lparr>suite_name = ''PIILeakTest Suite'', total_datasets = 1, total_assertions = 2,
      passed_assertions = 1, failed_assertions = 1,
      assertion_results =
        [\<lparr>assertion_type = ''no_forbidden_pii'', ar_dataset = ''users'', passed = True,
          findings = [], ar_message = ''PASS'', ar_severity = INFO\<rparr>,
         \<lparr>assertion_type = ''masking_applied'', ar_dataset = ''users'', passed = False,
          findings = [], ar_message = ''FAIL'', ar_severity = sev\<rparr>],
      overall_passed = False\<rparr>"

definition eleven_emails :: "cell list" where
  \<comment> \<open>a column of eleven e-mail addresses\<close>
  "eleven_emails =
     [Some ''a@x.com'', Some ''b@x.com'', Some ''c@x.com'', Some ''d@x.com'', Some ''e@x.com'',
      Some ''f@x.com'', Some ''g@x.com'', Some ''h@x.com'', Some ''i@x.com'', Some ''j@x.com'',
      Some ''k@x.com'']"

definition users_policy :: DatasetPolicy where
  \<comment> \<open>a policy that forbids e-mail addresses and requires them to be masked\<close>
  "users_policy =
     \<lparr>name = ''users'', path = ''users.csv'', format = ''csv'', allowed_pii_types = [],
      forbidden_pii_types = [EMAIL], masking_required_for = [EMAIL], hash_allowed_for = []\<rparr>"

text \<open>
  The entropy is a real number, which is not evaluated; the other functions are, also
  where they call \<open>is_high_entropy_token\<close> on a value that is too short or has a
  character outside the token alphabet.
\<close>

declare calculate_shannon_entropy_def [code del]

declare str_nat.simps [simp del] digit_sum.simps [simp del]

section \<open>Proofs: sequencing, dictionaries and the row scan\<close>

lemma bind_Inr_iff: "bind m f = Inr y \<longleftrightarrow> (\<exists>x. m = Inr x \<and> f x = Inr y)"
  by (cases m) simp_all

lemma bind_InrE:
  assumes "bind m f = Inr y"
  obtains x where "m = Inr x" "f x = Inr y"
  using assms by (cases m) simp_all

lemma mapM_Inr_all2: "mapM f xs = Inr ys \<Longrightarrow> list_all2 (\<lambda>x y. f x = Inr y) xs ys"
proof (induction xs arbitrary: ys)
  case Nil then show ?case by simp
next
  case (Cons x xs)
  then show ?case by (auto simp: bind_Inr_iff)
qed

lemma mapM_Inr_member:
  assumes "mapM f xs = Inr ys" "y \<in> set ys"
  shows "\<exists>x \<in> set xs. f x = Inr y"
proof -
  from assms(2) obtain i where i: "i < length ys" "y = ys ! i"
    by (auto simp: in_set_conv_nth)
  from mapM_Inr_all2 [OF assms(1)] have "length xs = length ys" "f (xs ! i) = Inr (ys ! i)"
    using i by (simp_all add: list_all2_conv_all_nth)
  with i show ?thesis by (intro bexI [of _ "xs ! i"]) simp_all
qed

lemma mapM_Inr_image:
  assumes "mapM f xs = Inr ys" "x \<in> set xs"
  shows "\<exists>y \<in> set ys. f x = Inr y"
  using mapM_Inr_all2 [OF assms(1)] assms(2)
  by (auto simp: list_all2_conv_all_nth in_set_conv_nth)

lemma fold_invariant:
  assumes "I s0" "\<And>x s. x \<in> set xs \<Longrightarrow> I s \<Longrightarrow> I (g x s)"
  shows "I (fold g xs s0)"
  using assms by (induction xs arbitrary: s0) simp_all

lemma map_of_dict_set: "map_of (dict_set d k v) = (map_of d)(k \<mapsto> v)"
  by (induction d) (auto simp: fun_eq_iff)

lemma keys_dict_set: "fst ` set (dict_set d k v) = insert k (fst ` set d)"
proof -
  have "fst ` set (dict_set d k v) = dom (map_of (dict_set d k v))"
    by (simp add: dom_map_of_conv_image_fst)
  also have "\<dots> = insert k (dom (map_of d))"
    by (simp add: map_of_dict_set)
  finally show ?thesis by (simp add: dom_map_of_conv_image_fst)
qed

lemma distinct_dict_set: "distinct (map fst d) \<Longrightarrow> distinct (map fst (dict_set d k v))"
proof (induction d)
  case Nil then show ?case by simp
next
  case (Cons e d)
  have "fst ` set (dict_set d k v) = insert k (fst ` set d)" by (rule keys_dict_set)
  with Cons show ?case by (cases e) auto
qed

lemma distinct_record_violation:
  "distinct (map fst cf) \<Longrightarrow> distinct (map fst (record_violation mv t v cf))"
  by (auto simp: record_violation_def Let_def distinct_dict_set map_of_dict_set split: option.splits)

lemma bucket_record_violation:
  "bucket (record_violation mv t v cf) t' =
     (if t' = t \<and> int (length (bucket cf t)) < mv then bucket cf t @ [v] else bucket cf t')"
  by (auto simp: record_violation_def bucket_def Let_def map_of_dict_set split: option.splits)

lemma buckets_inv_empty: "(\<And>t. R t []) \<Longrightarrow> buckets_inv R []"
  by (simp add: buckets_inv_def bucket_def)

lemma buckets_inv_record:
  assumes "buckets_inv R cf" "\<And>vs. R t vs \<Longrightarrow> int (length vs) < mv \<Longrightarrow> R t (vs @ [v])"
  shows "buckets_inv R (record_violation mv t v cf)"
  using assms by (simp add: buckets_inv_def distinct_record_violation bucket_record_violation)

lemma bucket_entry:
  "distinct (map fst cf) \<Longrightarrow> (t, vs) \<in> set cf \<Longrightarrow> bucket cf t = vs"
  by (simp add: bucket_def)

lemma entry_bucket:
  "bucket cf t \<noteq> [] \<Longrightarrow> (t, bucket cf t) \<in> set cf"
  by (auto simp: bucket_def split: option.splits dest: map_of_SomeD)

lemma scan_rows_invariant_idx:
  assumes "scan_rows body i cells cf0 = Inr cf'" "I cf0"
    and "\<And>k cf cf1. k < length cells \<Longrightarrow> body (i + k) (cells ! k) cf = Inr cf1 \<Longrightarrow> I cf
           \<Longrightarrow> I cf1"
  shows "I cf'"
  using assms
proof (induction cells arbitrary: i cf0)
  case Nil then show ?case by simp
next
  case (Cons c cells)
  from Cons.prems(1) obtain cf1 where 1: "body i c cf0 = Inr cf1"
    and 2: "scan_rows body (Suc i) cells cf1 = Inr cf'"
    by (auto simp: bind_Inr_iff)
  have "I cf1" using Cons.prems(3) [of 0 cf0 cf1] 1 Cons.prems(2) by simp
  moreover have "I cfb" if "k < length cells" "body (Suc i + k) (cells ! k) cfa = Inr cfb" "I cfa"
    for k cfa cfb
    using Cons.prems(3) [of "Suc k" cfa cfb] that by simp
  ultimately show ?case using 2 by (intro Cons.IH [of "Suc i" cf1])
qed

lemma scan_rows_invariant:
  assumes "scan_rows body i cells cf0 = Inr cf'" "I cf0"
    and "\<And>idx c cf cf1. c \<in> set cells \<Longrightarrow> body idx c cf = Inr cf1 \<Longrightarrow> I cf \<Longrightarrow> I cf1"
  shows "I cf'"
  using assms(1,2)
proof (rule scan_rows_invariant_idx)
  fix k cf cf1
  assume "k < length cells" "body (i + k) (cells ! k) cf = Inr cf1" "I cf"
  then show "I cf1" using assms(3) [of "cells ! k" "i + k" cf cf1] by simp
qed

lemma fold_establish:
  assumes "x \<in> set xs" "\<And>s. P (g x s)" "\<And>y s. P s \<Longrightarrow> P (g y s)"
  shows "P (fold g xs s0)"
  using assms(1)
proof (induction xs arbitrary: s0)
  case Nil then show ?case by simp
next
  case (Cons y ys)
  show ?case
  proof (cases "x = y")
    case True
    have "P (g y s0)" unfolding True [symmetric] by (rule assms(2))
    then have "P (fold g ys (g y s0))"
      by (rule fold_invariant [where I = P]) (rule assms(3))
    then show ?thesis by simp
  next
    case False
    with Cons.prems have "x \<in> set ys" by simp
    then show ?thesis using Cons.IH by simp
  qed
qed

lemma scan_rows_establish:
  assumes "scan_rows body i cells cf0 = Inr cf'" "c \<in> set cells"
    and "\<And>idx cf cf1. body idx c cf = Inr cf1 \<Longrightarrow> P cf1"
    and "\<And>idx c' cf cf1. body idx c' cf = Inr cf1 \<Longrightarrow> P cf \<Longrightarrow> P cf1"
  shows "P cf'"
  using assms(1,2)
proof (induction cells arbitrary: i cf0)
  case Nil then show ?case by simp
next
  case (Cons c' cells)
  from Cons.prems(1) obtain cf1 where 1: "body i c' cf0 = Inr cf1"
    and 2: "scan_rows body (Suc i) cells cf1 = Inr cf'"
    by (auto simp: bind_Inr_iff)
  show ?case
  proof (cases "c = c'")
    case True
    with 1 have "P cf1" using assms(3) by blast
    with 2 show ?thesis
      using assms(4) by (rule scan_rows_invariant [where I = P]) 
  next
    case False
    with Cons.prems(2) have "c \<in> set cells" by simp
    with 2 show ?thesis by (rule Cons.IH)
  qed
qed

section \<open>Proofs: the Luhn validator\<close>

lemma cp_char_of_digit: "n < 10 \<Longrightarrow> cp (char_of (48 + n)) - 48 = n"
  by (simp add: cp_def)

lemma sum_digits_of_nat: "sum_list (digits_of_nat n) = digit_sum n"
proof (induction n rule: str_nat.induct)
  case (1 n)
  show ?case
  proof (cases "n < 10")
    case True
    then show ?thesis
      by (simp add: digits_of_nat_def str_nat.simps [of n] digit_sum.simps [of n] cp_char_of_digit)
  next
    case False
    have "n mod 10 < 10" by simp
    then have "cp (char_of (48 + n mod 10)) - 48 = n mod 10" by (rule cp_char_of_digit)
    with False 1 show ?thesis
      by (simp add: digits_of_nat_def str_nat.simps [of n] digit_sum.simps [of n])
  qed
qed

lemma mapM_int_of_char_digits:
  "list_all ascii_digit s \<Longrightarrow> mapM int_of_char s = Inr (map digit_val s)"
  by (induction s) (simp_all add: digit_val_def)

lemma mapM_int_of_char_bad:
  "\<not> list_all ascii_digit s \<Longrightarrow> mapM int_of_char s = Inl ValueError"
proof (induction s)
  case Nil then show ?case by simp
next
  case (Cons c s)
  show ?case
  proof (cases "ascii_digit c")
    case True
    with Cons show ?thesis by simp
  next
    case False then show ?thesis by simp
  qed
qed

lemma fold_add: "fold (\<lambda>d (c::nat). c + f d) xs c0 = c0 + sum_list (map f xs)"
  by (induction xs arbitrary: c0) simp_all

lemma luhn_checksum_digits:
  "list_all ascii_digit s \<Longrightarrow>
   luhn_checksum s = Inr (luhn_weighted (rev (map digit_val s)) mod 10 = 0)"
  by (simp add: luhn_checksum_def digits_of_str_def mapM_int_of_char_digits fold_add
      sum_digits_of_nat odd_digits_def even_digits_def luhn_weighted_def Let_def)

lemma step2_Cons: "step2 (y # zs) = y # step2 (tl zs)"
  by (cases zs) simp_all

lemma weighted_sum_index:
  "(\<Sum>i<length r. if odd i then f (r ! i) else r ! i)
     = sum_list (step2 r) + sum_list (map f (step2 (tl r)))"
proof (induction r rule: step2.induct)
  case 1 show ?case by simp
next
  case (2 x) show ?case by simp
next
  case (3 x y zs)
  have h: "(\<Sum>i<length (x # y # zs). if odd i then f ((x # y # zs) ! i) else (x # y # zs) ! i)
        = x + (f y + (\<Sum>i<length zs. if odd i then f (zs ! i) else zs ! i))"
    by (simp add: sum.lessThan_Suc_shift del: sum.lessThan_Suc cong: if_cong)
  show ?case
    unfolding h "3.IH" by (simp add: step2_Cons ac_simps)
qed

lemma luhn_total_spec_weighted: "luhn_total_spec ds = luhn_weighted (rev ds)"
proof -
  have "(\<lambda>d::nat. digit_sum (d * 2)) = (\<lambda>d. digit_sum (2 * d))"
    by (simp add: mult.commute)
  then show ?thesis
    using weighted_sum_index [of "\<lambda>d. digit_sum (2 * d)" "rev ds"]
    by (simp add: luhn_total_spec_def from_right_def luhn_weighted_def cong: if_cong)
qed

lemma digit_sum_small: "n < 10 \<Longrightarrow> digit_sum n = n"
  by (simp add: digit_sum.simps [of n])

lemma digit_sum_double: "d \<le> 9 \<Longrightarrow> digit_sum (2 * d) = (if d < 5 then 2 * d else 2 * d - 9)"
proof -
  assume d: "d \<le> 9"
  show ?thesis
  proof (cases "d < 5")
    case True
    then show ?thesis by (simp add: digit_sum_small)
  next
    case False
    with d have dm: "(2 * d) div 10 = 1" "(2 * d) mod 10 = 2 * d - 10"
      by (simp_all add: mod_if)
    have "digit_sum (2 * d) = digit_sum ((2 * d) div 10) + (2 * d) mod 10"
      using False by (subst digit_sum.simps) simp
    also have "\<dots> = 1 + (2 * d - 10)"
      unfolding dm by (simp add: digit_sum_small)
    finally show ?thesis using False by simp
  qed
qed

lemma luhn_weight_lt: "d \<le> 9 \<Longrightarrow> luhn_weight i d < 10"
  by (auto simp: luhn_weight_def digit_sum_double)

lemma luhn_weight_inj:
  "d \<le> 9 \<Longrightarrow> e \<le> 9 \<Longrightarrow> d \<noteq> e \<Longrightarrow> luhn_weight i d \<noteq> luhn_weight i e"
  by (simp add: luhn_weight_def digit_sum_double split: if_splits; arith)

lemma luhn_weighted_sum: "luhn_weighted r = (\<Sum>i<length r. luhn_weight i (r ! i))"
proof -
  have "(\<lambda>d::nat. digit_sum (d * 2)) = (\<lambda>d. digit_sum (2 * d))"
    by (simp add: mult.commute)
  then show ?thesis
    using weighted_sum_index [of "\<lambda>d. digit_sum (2 * d)" r]
    by (simp add: luhn_weighted_def luhn_weight_def cong: if_cong)
qed

lemma luhn_weighted_update:
  assumes j: "j < length r"
  shows "\<exists>S. luhn_weighted r = S + luhn_weight j (r ! j)
           \<and> luhn_weighted (r[j := v]) = S + luhn_weight j v"
proof -
  let ?A = "{..<length r} - {j}"
  have fin: "finite {..<length r}" and mem: "j \<in> {..<length r}" using j by simp_all
  have same: "(\<Sum>i\<in>?A. luhn_weight i (r[j := v] ! i)) = (\<Sum>i\<in>?A. luhn_weight i (r ! i))"
    by (rule sum.cong) auto
  have "luhn_weighted r = luhn_weight j (r ! j) + (\<Sum>i\<in>?A. luhn_weight i (r ! i))"
    unfolding luhn_weighted_sum by (rule sum.remove [OF fin mem])
  moreover have "luhn_weighted (r[j := v])
      = luhn_weight j (r[j := v] ! j) + (\<Sum>i\<in>?A. luhn_weight i (r[j := v] ! i))"
    unfolding luhn_weighted_sum using sum.remove [OF fin mem, of "\<lambda>i. luhn_weight i (r[j := v] ! i)"]
    by simp
  ultimately show ?thesis using j same by (intro exI [of _ "\<Sum>i\<in>?A. luhn_weight i (r ! i)"]) simp
qed

lemma mod10_shift:
  assumes "(x::nat) mod 10 = 0" "d < 10"
  shows "(x + d) mod 10 = d"
  using assms mod_add_eq [of x 10 d] by simp

lemma mod10_distinct:
  assumes "(a::nat) < 10" "b < 10" "b \<noteq> a" "(S + a) mod 10 = 0"
  shows "(S + b) mod 10 \<noteq> 0"
proof
  assume sb: "(S + b) mod 10 = 0"
  show False
  proof (cases "a < b")
    case True
    then have "(S + a + (b - a)) mod 10 = b - a"
      using assms by (intro mod10_shift) simp_all
    moreover have "S + a + (b - a) = S + b" using True by simp
    ultimately show False using sb True by simp
  next
    case False
    with assms have ba: "b < a" by simp
    then have "(S + b + (a - b)) mod 10 = a - b"
      using assms sb by (intro mod10_shift) simp_all
    moreover have "S + b + (a - b) = S + a" using ba by simp
    ultimately show False using assms(4) ba by simp
  qed
qed

lemma luhn_single_digit:
  assumes "j < length r" "r ! j \<le> 9" "v \<le> 9" "v \<noteq> r ! j" "luhn_weighted r mod 10 = 0"
  shows "luhn_weighted (r[j := v]) mod 10 \<noteq> 0"
proof -
  obtain S where S: "luhn_weighted r = S + luhn_weight j (r ! j)"
      "luhn_weighted (r[j := v]) = S + luhn_weight j v"
    using luhn_weighted_update [OF assms(1)] by blast
  have "luhn_weight j (r ! j) < 10" "luhn_weight j v < 10"
    using assms by (simp_all add: luhn_weight_lt)
  moreover have "luhn_weight j v \<noteq> luhn_weight j (r ! j)"
    using assms by (simp add: luhn_weight_inj)
  ultimately show ?thesis
    using S assms(5) mod10_distinct [of "luhn_weight j (r ! j)" "luhn_weight j v" S] by simp
qed

lemma ascii_digit_not_sep: "ascii_digit c \<Longrightarrow> \<not> (py_isspace_char c \<or> c = CHR ''-'')"
  by (auto simp: ascii_digit_def in_range_def py_isspace_char_def cp_def)

lemma cleaned_digits: "list_all ascii_digit s \<Longrightarrow> cleaned s = s"
  by (induction s) (simp_all add: cleaned_def ascii_digit_not_sep)

lemma digit_val_le: "ascii_digit c \<Longrightarrow> digit_val c \<le> 9"
  by (auto simp: ascii_digit_def in_range_def digit_val_def cp_def)

lemma digit_val_inj:
  assumes "ascii_digit c" "ascii_digit d" "c \<noteq> d"
  shows "digit_val c \<noteq> digit_val d"
proof
  assume "digit_val c = digit_val d"
  moreover have "48 \<le> cp c" "48 \<le> cp d"
    using assms(1,2) by (simp_all add: ascii_digit_def in_range_def cp_def)
  ultimately have "cp c = cp d"
    by (simp add: digit_val_def)
  with assms(3) show False by (simp add: cp_def)
qed

lemma is_credit_card_digits:
  "list_all ascii_digit s \<Longrightarrow> 13 \<le> length s \<Longrightarrow> length s \<le> 19 \<Longrightarrow>
   is_credit_card s = Inr (luhn_weighted (rev (map digit_val s)) mod 10 = 0)"
  by (auto simp: is_credit_card_def Let_def cleaned_digits luhn_checksum_digits py_isdigit_def
      py_isdigit_char_def list_all_iff)

subsection \<open>The validator on strings of any code points\<close>

lemma mapM_int_of_code_point_decimal:
  "list_all (\<lambda>x. db_decimal db x \<noteq> None) s \<Longrightarrow>
   mapM (int_of_code_point db) s = Inr (map (decimal_value db) s)"
  by (induction s) (auto simp: int_of_code_point_def decimal_value_def)

lemma mapM_int_of_code_point_bad:
  "\<not> list_all (\<lambda>x. db_decimal db x \<noteq> None) s \<Longrightarrow>
   mapM (int_of_code_point db) s = Inl ValueError"
proof (induction s)
  case Nil
  then show ?case by simp
next
  case (Cons c s)
  show ?case
  proof (cases "db_decimal db c")
    case None
    then show ?thesis by (simp add: int_of_code_point_def)
  next
    case (Some d)
    with Cons show ?thesis by (simp add: int_of_code_point_def)
  qed
qed

lemma luhn_checksum_u_decimal:
  "list_all (\<lambda>x. db_decimal db x \<noteq> None) s \<Longrightarrow>
   luhn_checksum_u db s = Inr (luhn_weighted (rev (map (decimal_value db) s)) mod 10 = 0)"
  by (simp add: luhn_checksum_u_def digits_of_ustr_def mapM_int_of_code_point_decimal fold_add
      sum_digits_of_nat odd_digits_def even_digits_def luhn_weighted_def Let_def)

text \<open>
  On the code points U+0000 to U+00FF the validator on code points is the validator on
  8-bit strings of the other sections.
\<close>

lemma cp_eq_hyphen: "cp c = 45 \<longleftrightarrow> c = CHR ''-''"
proof -
  have "(of_char c :: nat) = of_char CHR ''-'' \<longleftrightarrow> c = CHR ''-''"
    by (rule of_char_eq_iff)
  then show ?thesis by (simp add: cp_def)
qed

lemma cleaned_latin1: "cleaned_u latin1_db (map cp v) = map cp (cleaned v)"
  by (induction v)
     (simp_all add: cleaned_u_def cleaned_def latin1_db_def py_isspace_char_def cp_eq_hyphen)

lemma int_of_code_point_latin1: "int_of_code_point latin1_db (cp c) = int_of_char c"
  by (simp add: int_of_code_point_def latin1_db_def ascii_digit_def in_range_def)
     (simp add: cp_def)

lemma mapM_latin1: "mapM (int_of_code_point latin1_db) (map cp s) = mapM int_of_char s"
  by (induction s) (simp_all add: int_of_code_point_latin1 del: int_of_char.simps)

lemma isdigit_latin1: "list_all (db_isdigit latin1_db) (map cp s) = list_all py_isdigit_char s"
  by (induction s)
     (simp_all add: latin1_db_def py_isdigit_char_def ascii_digit_def in_range_def,
      simp_all add: cp_def)

lemma luhn_checksum_latin1: "luhn_checksum_u latin1_db (map cp s) = luhn_checksum s"
  by (simp add: luhn_checksum_def luhn_checksum_u_def digits_of_str_def digits_of_ustr_def
      mapM_latin1)

lemma is_credit_card_latin1: "is_credit_card_u latin1_db (map cp v) = is_credit_card v"
  by (simp add: is_credit_card_def is_credit_card_u_def Let_def cleaned_latin1 isdigit_latin1
      isdigit_u_def py_isdigit_def luhn_checksum_latin1)

text \<open>
  Where every character with a decimal value is a digit to \<^verbatim>\<open>str.isdigit\<close>, as in Unicode,
  the digits of the specification are the characters with a decimal value.
\<close>

lemma decimal_digit_iff:
  "(\<And>x. db_decimal db x \<noteq> None \<Longrightarrow> db_isdigit db x) \<Longrightarrow>
   decimal_digit db x \<longleftrightarrow> db_decimal db x \<noteq> None"
  by (auto simp: decimal_digit_def)

lemma is_credit_card_u_examples:
  "is_credit_card_u latin1_db (map cp ''4532 0151-1283 0366'') = Inr True"
  "is_credit_card_u latin1_db (map cp ''4532 0151-1283 0367'') = Inr False"
  "is_credit_card_u latin1_db (replicate 13 178) = Inl ValueError"
  "is_credit_card_u arabic_indic_db arabic_indic_card = Inr True"
  by code_simp+

text \<open>
  Claim C5. For every string of code points, and whatever the Unicode tables of the
  interpreter are, \<open>is_credit_card\<close> returns true exactly when the string, with whitespace
  and hyphens removed, consists of digits only (decimal digits of any script: ASCII,
  Arabic-Indic, fullwidth, ...), has between 13 and 19 of them, and its Luhn total (every
  second digit from the rightmost doubled and replaced by the sum of its digits, the others
  added as they are) is divisible by 10. On every other string it returns false or raises
  \<^verbatim>\<open>ValueError\<close>, so it does not return true.
\<close>

theorem C5_is_credit_card_iff_spec:
  "is_credit_card_u db v = Inr True \<longleftrightarrow> is_credit_card_spec db v"
proof -
  define c where "c = cleaned_u db v"
  have c: "filter (\<lambda>x. \<not> db_isspace db x \<and> x \<noteq> 45) v = c"
    by (simp add: cleaned_u_def c_def)
  have spec: "is_credit_card_spec db v \<longleftrightarrow>
        list_all (decimal_digit db) c \<and> 13 \<le> length c \<and> length c \<le> 19
        \<and> luhn_total_spec (map (decimal_value db) c) mod 10 = 0"
    unfolding is_credit_card_spec_def c Let_def ..
  have code: "is_credit_card_u db v =
        (if \<not> (c \<noteq> [] \<and> list_all (db_isdigit db) c) \<or> length c < 13 \<or> length c > 19
         then Inr False else luhn_checksum_u db c)"
    unfolding is_credit_card_u_def isdigit_u_def c_def Let_def ..
  have both: "list_all (decimal_digit db) c
        \<longleftrightarrow> list_all (db_isdigit db) c \<and> list_all (\<lambda>x. db_decimal db x \<noteq> None) c"
    by (auto simp: list_all_iff decimal_digit_def)
  show ?thesis
  proof (cases "list_all (\<lambda>x. db_decimal db x \<noteq> None) c")
    case True
    have ne: "13 \<le> length c \<Longrightarrow> c \<noteq> []" by auto
    have "luhn_checksum_u db c = Inr (luhn_total_spec (map (decimal_value db) c) mod 10 = 0)"
      by (simp only: luhn_checksum_u_decimal [OF True] luhn_total_spec_weighted)
    then show ?thesis
      unfolding spec code both using True ne by (simp del: not_None_eq) linarith
  next
    case False
    then have "luhn_checksum_u db c = Inl ValueError"
      by (simp add: luhn_checksum_u_def digits_of_ustr_def mapM_int_of_code_point_bad
          del: not_None_eq)
    then show ?thesis
      unfolding spec code both using False by (simp del: not_None_eq)
  qed
qed

theorem C5_is_credit_card_iff_spec_witness:
  "is_credit_card_u arabic_indic_db arabic_indic_card = Inr True
   \<and> is_credit_card_spec arabic_indic_db arabic_indic_card"
proof -
  have "is_credit_card_u arabic_indic_db arabic_indic_card = Inr True" by code_simp
  then show ?thesis
    using C5_is_credit_card_iff_spec [of arabic_indic_db arabic_indic_card] by simp
qed

subsection \<open>Single-digit substitutions\<close>

text \<open>
  Claim C6. If a string of 13 to 19 decimal digits is accepted by \<open>is_credit_card\<close>, then
  replacing any one of its digits by a different decimal digit gives a string that
  \<open>is_credit_card\<close> rejects: the Luhn check detects every single-digit substitution.
\<close>

theorem C6_luhn_detects_single_digit_substitution:
  assumes digits: "list_all ascii_digit s" and len: "13 \<le> length s" "length s \<le> 19"
    and ok: "is_credit_card s = Inr True"
    and i: "i < length s" and d: "ascii_digit d" "d \<noteq> s ! i"
  shows "is_credit_card (s[i := d]) = Inr False"
proof -
  let ?r = "rev (map digit_val s)" and ?j = "length s - i - 1"
  have digits': "list_all ascii_digit (s[i := d])"
    using digits d(1) by (auto simp: list_all_iff dest: subsetD [OF set_update_subset_insert])
  have j: "?j < length ?r" using i by simp
  have rj: "?r ! ?j = digit_val (s ! i)"
    using i by (simp add: rev_nth)
  have si: "ascii_digit (s ! i)" using digits i by (simp add: list_all_length)
  have upd: "rev (map digit_val (s[i := d])) = ?r[?j := digit_val d]"
    using i by (simp add: map_update rev_update)
  have "luhn_weighted ?r mod 10 = 0"
    using ok is_credit_card_digits [OF digits len] by simp
  then have "luhn_weighted (?r[?j := digit_val d]) mod 10 \<noteq> 0"
    using j rj si d by (intro luhn_single_digit) (simp_all add: digit_val_le digit_val_inj)
  then show ?thesis
    using is_credit_card_digits [OF digits'] len upd by simp
qed


theorem C6_luhn_detects_single_digit_substitution_witness:
  "list_all ascii_digit ''4532015112830366'' \<and> 13 \<le> length ''4532015112830366''
   \<and> length ''4532015112830366'' \<le> 19 \<and> is_credit_card ''4532015112830366'' = Inr True
   \<and> (3::nat) < length ''4532015112830366'' \<and> ascii_digit CHR ''7''
   \<and> CHR ''7'' \<noteq> ''4532015112830366'' ! 3
   \<and> is_credit_card (''4532015112830366''[3 := CHR ''7'']) = Inr False"
proof -
  have h1: "list_all ascii_digit ''4532015112830366''" by code_simp
  have h2: "13 \<le> length ''4532015112830366''" "length ''4532015112830366'' \<le> 19" by simp_all
  have h3: "is_credit_card ''4532015112830366'' = Inr True" by code_simp
  have h4: "(3::nat) < length ''4532015112830366''" by simp
  have h5: "ascii_digit CHR ''7''" by code_simp
  have h6: "CHR ''7'' \<noteq> ''4532015112830366'' ! 3" by simp
  show ?thesis
    using C6_luhn_detects_single_digit_substitution [OF h1 h2 h3 h4 h5 h6] h1 h2 h3 h4 h5 h6
    by blast
qed


section \<open>Proofs: early exit, CI decision, entropy and cycles\<close>

text \<open>
  Claim C7. For every dataset, whatever its cells hold, and every policy whose list of
  forbidden PII types is empty, the forbidden-PII assertion returns a result that has passed,
  has severity info and has no findings.
\<close>

theorem C7_empty_forbidden_list_passes:
  "forbidden_pii_types policy = [] \<Longrightarrow>
   \<exists>r. assert_no_forbidden_pii df policy max_violations = Inr r
       \<and> passed r \<and> ar_severity r = INFO \<and> findings r = []"
  by (simp add: assert_no_forbidden_pii_def)

theorem C7_empty_forbidden_list_passes_witness:
  "forbidden_pii_types \<lparr>name = ''test_dataset'', path = ''test.csv'', format = ''csv'',
       allowed_pii_types = [], forbidden_pii_types = [], masking_required_for = [],
       hash_allowed_for = []\<rparr> = []
   \<and> (\<exists>r. assert_no_forbidden_pii
            [(''customer_id'', [Some ''1'', Some ''2'']),
             (''email'', [Some ''john@example.com'', Some ''jane@example.com''])]
            \<lparr>name = ''test_dataset'', path = ''test.csv'', format = ''csv'',
              allowed_pii_types = [], forbidden_pii_types = [], masking_required_for = [],
              hash_allowed_for = []\<rparr> 10 = Inr r
          \<and> passed r \<and> ar_severity r = INFO \<and> findings r = [])"
  using C7_empty_forbidden_list_passes
    [of "\<lparr>name = ''test_dataset'', path = ''test.csv'', format = ''csv'',
              allowed_pii_types = [], forbidden_pii_types = [], masking_required_for = [],
              hash_allowed_for = []\<rparr>"
        "[(''customer_id'', [Some ''1'', Some ''2'']),
             (''email'', [Some ''john@example.com'', Some ''jane@example.com''])]" 10]
  by simp

lemma should_fail_ci_iff:
  "should_fail_ci sr \<longleftrightarrow>
     (\<exists>ar \<in> set (assertion_results sr). \<not> passed ar \<and> (ar_severity ar = CRITICAL \<or> ar_severity ar = HIGH))"
  by (auto simp: should_fail_ci_def Let_def filter_empty_conv)

text \<open>
  Claim C10. \<open>should_fail_ci\<close> holds exactly when some assertion result has not passed and
  has severity critical or high. Failed assertions of severity medium, low or info never make
  it hold, and the decision of the command line does not depend on the suite's configuration,
  so not on its \<open>fail_on_severity\<close> list.
\<close>

theorem C10_should_fail_ci:
  "(should_fail_ci sr \<longleftrightarrow>
      (\<exists>ar \<in> set (assertion_results sr).
         \<not> passed ar \<and> (ar_severity ar = CRITICAL \<or> ar_severity ar = HIGH)))
   \<and> ((\<forall>ar \<in> set (assertion_results sr).
          \<not> passed ar \<longrightarrow> ar_severity ar \<in> {MEDIUM, LOW, INFO}) \<longrightarrow> \<not> should_fail_ci sr)
   \<and> (\<forall>suite_config. run_fails_ci suite_config sr = should_fail_ci sr)"
  by (auto simp: should_fail_ci_iff run_fails_ci_def)

theorem C10_should_fail_ci_witness:
  "should_fail_ci (two_results HIGH) \<and> should_fail_ci (two_results CRITICAL)
   \<and> \<not> should_fail_ci (two_results MEDIUM)
   \<and> \<not> run_fails_ci
         \<lparr>datasets = [], lineage = [], sampling = \<lparr>mode = ''head'', rows = 1000\<rparr>,
          thresholds = \<lparr>entropy_threshold = 4.5, max_violations_to_show = 10,
                         fail_on_severity = [MEDIUM]\<rparr>\<rparr>
         (two_results MEDIUM)"
  using C10_should_fail_ci [of "two_results HIGH"] C10_should_fail_ci [of "two_results CRITICAL"]
    C10_should_fail_ci [of "two_results MEDIUM"]
  by (simp add: two_results_def)

lemma char_freq_step:
  "fold (\<lambda>char freq. dict_set freq char ((case map_of freq char of None \<Rightarrow> 0 | Some n \<Rightarrow> n) + 1))
     (replicate n c) [(c, k)] = [(c, k + n)]"
  by (induction n arbitrary: k) simp_all

lemma char_freq_replicate: "char_freq (replicate (Suc n) c) = [(c, Suc n)]"
  using char_freq_step [of n c 1] by (simp add: char_freq_def)

text \<open>
  Claim C9. For every string that consists of one character repeated zero or more times,
  the Shannon entropy function returns 0. (Floats are modelled as real numbers; on this path
  the code divides a count by itself and takes the logarithm of 1.)
\<close>

theorem C9_uniform_string_entropy_zero:
  "calculate_shannon_entropy (replicate n c) = 0"
proof (cases n)
  case 0
  then show ?thesis by (simp add: calculate_shannon_entropy_def)
next
  case (Suc m)
  have "replicate (Suc m) c \<noteq> []" by simp
  then show ?thesis
    unfolding Suc calculate_shannon_entropy_def char_freq_replicate
    by (simp add: Let_def del: replicate.simps)
qed

theorem C9_uniform_string_entropy_zero_witness:
  "calculate_shannon_entropy ''aaaa'' = 0"
  using C9_uniform_string_entropy_zero [of 4 "CHR ''a''"] by (simp add: numeral_eq_Suc)

lemma three_cycle_graph:
  assumes "a \<noteq> b" "b \<noteq> c" "a \<noteq> c"
  shows "build_graph [\<lparr>source = a, target = b\<rparr>, \<lparr>source = b, target = c\<rparr>, \<lparr>source = c, target = a\<rparr>]
           = [(a, [b]), (b, [c]), (c, [a])]"
    and "build_graph [\<lparr>source = a, target = b\<rparr>, \<lparr>source = c, target = a\<rparr>, \<lparr>source = b, target = c\<rparr>]
           = [(a, [b]), (c, [a]), (b, [c])]"
  using assms by (auto simp: build_graph_def)

lemma three_cycle_dfs:
  assumes d: "a \<noteq> b" "b \<noteq> c" "a \<noteq> c"
    and g: "map_of graph a = Some [b]" "map_of graph b = Some [c]" "map_of graph c = Some [a]"
  shows "dfs (Suc (Suc (Suc k))) graph a [] \<lparr>visited = {}, rec_stack = {}, cycles = []\<rparr>
           = Inr \<lparr>visited = {a, b, c}, rec_stack = {}, cycles = [[a, b, c, a]]\<rparr>"
proof -
  have "dfs (Suc k) graph c [a, b] \<lparr>visited = {b, a}, rec_stack = {b, a}, cycles = []\<rparr>
          = Inr \<lparr>visited = {c, b, a}, rec_stack = {b, a}, cycles = [[a, b, c, a]]\<rparr>"
    using d g by (auto simp: Let_def)
  then have "dfs (Suc (Suc k)) graph b [a] \<lparr>visited = {a}, rec_stack = {a}, cycles = []\<rparr>
          = Inr \<lparr>visited = {c, b, a}, rec_stack = {a}, cycles = [[a, b, c, a]]\<rparr>"
    using d g by (auto simp: Let_def)
  then show ?thesis
    using d g by (auto simp: Let_def)
qed

text \<open>
  Claim C8. On a lineage with exactly the edges \<open>a \<rightarrow> b\<close>, \<open>b \<rightarrow> c\<close>, \<open>c \<rightarrow> a\<close> between
  three different datasets, listed with the edge from \<open>a\<close> first, \<open>detect_cycles\<close> returns
  exactly one cycle: \<open>a\<close>, the root of the traversal, then \<open>b\<close>, then \<open>c\<close>, closed by
  \<open>a\<close> again. Three nested calls are enough.
\<close>

theorem C8_three_cycle:
  assumes "distinct [a, b, c]"
    and "lineage config = [\<lparr>source = a, target = b\<rparr>, \<lparr>source = b, target = c\<rparr>, \<lparr>source = c, target = a\<rparr>]
       \<or> lineage config = [\<lparr>source = a, target = b\<rparr>, \<lparr>source = c, target = a\<rparr>, \<lparr>source = b, target = c\<rparr>]"
  shows "detect_cycles (3 + k) config = Inr [[a, b, c, a]]"
proof -
  have d: "a \<noteq> b" "b \<noteq> c" "a \<noteq> c" using assms(1) by auto
  have k: "3 + k = Suc (Suc (Suc k))" by simp
  from assms(2) show ?thesis
  proof
    assume l: "lineage config = [\<lparr>source = a, target = b\<rparr>, \<lparr>source = b, target = c\<rparr>, \<lparr>source = c, target = a\<rparr>]"
    have "dfs (Suc (Suc (Suc k))) [(a, [b]), (b, [c]), (c, [a])] a [] \<lparr>visited = {}, rec_stack = {}, cycles = []\<rparr>
           = Inr \<lparr>visited = {a, b, c}, rec_stack = {}, cycles = [[a, b, c, a]]\<rparr>"
      using d by (intro three_cycle_dfs) auto
    then show ?thesis
      unfolding detect_cycles_def l three_cycle_graph(1) [OF d] k
      by (simp add: Let_def del: dfs.simps)
  next
    assume l: "lineage config = [\<lparr>source = a, target = b\<rparr>, \<lparr>source = c, target = a\<rparr>, \<lparr>source = b, target = c\<rparr>]"
    have "dfs (Suc (Suc (Suc k))) [(a, [b]), (c, [a]), (b, [c])] a [] \<lparr>visited = {}, rec_stack = {}, cycles = []\<rparr>
           = Inr \<lparr>visited = {a, b, c}, rec_stack = {}, cycles = [[a, b, c, a]]\<rparr>"
      using d by (intro three_cycle_dfs) auto
    then show ?thesis
      unfolding detect_cycles_def l three_cycle_graph(2) [OF d] k
      by (simp add: Let_def del: dfs.simps)
  qed
qed

theorem C8_three_cycle_witness:
  "distinct [''A'', ''B'', ''C'']
   \<and> lineage three_cycle_config = [\<lparr>source = ''A'', target = ''B''\<rparr>, \<lparr>source = ''B'', target = ''C''\<rparr>,
                 \<lparr>source = ''C'', target = ''A''\<rparr>]
   \<and> detect_cycles 3 three_cycle_config = Inr [[''A'', ''B'', ''C'', ''A'']]"
proof -
  have d: "distinct [''A'', ''B'', ''C'']" by simp
  have l: "lineage three_cycle_config = [\<lparr>source = ''A'', target = ''B''\<rparr>, \<lparr>source = ''B'', target = ''C''\<rparr>,
                 \<lparr>source = ''C'', target = ''A''\<rparr>]"
    by (simp add: three_cycle_config_def)
  from C8_three_cycle [OF d disjI1 [OF l], of 0] d l show ?thesis by simp
qed

section \<open>Proofs: the leakage assertion\<close>

lemma for_columns_member:
  assumes "for_columns body df = Inr fs" "f \<in> set fs"
  shows "\<exists>c \<in> set df. \<exists>fs'. body c = Inr fs' \<and> f \<in> set fs'"
proof -
  from assms(1) obtain fss where fss: "mapM body df = Inr fss" "fs = concat fss"
    by (auto simp: for_columns_def bind_Inr_iff)
  with assms(2) obtain fs' where "fs' \<in> set fss" "f \<in> set fs'" by auto
  with mapM_Inr_member [OF fss(1)] show ?thesis by blast
qed

lemma for_columns_subset:
  assumes "for_columns body df = Inr fs" "c \<in> set df"
  shows "\<exists>fs'. body c = Inr fs' \<and> set fs' \<subseteq> set fs"
proof -
  from assms(1) obtain fss where fss: "mapM body df = Inr fss" "fs = concat fss"
    by (auto simp: for_columns_def bind_Inr_iff)
  from mapM_Inr_image [OF fss(1) assms(2)] fss(2) show ?thesis by auto
qed

lemma leakage_cell_preserves:
  assumes "leakage_cell risky mv idx c cf = Inr cf1" "I cf"
    and rec: "\<And>t x s. t \<in> risky \<Longrightarrow> I s \<Longrightarrow> I (record_violation mv t x s)"
  shows "I cf1"
proof (cases c)
  case None
  with assms(1,2) show ?thesis by (simp add: leakage_cell_def)
next
  case (Some raw)
  show ?thesis
  proof (cases "strip raw = []")
    case True
    with Some assms(1,2) show ?thesis by (simp add: leakage_cell_def)
  next
    case False
    define cfa where "cfa = fold (\<lambda>(t, m) cf. if t \<in> risky
                then record_violation mv t (idx, strip raw, m) cf else cf)
              (detect_pii_in_value (strip raw)) cf"
    define ccs :: "error + col_findings" where "ccs = (if CREDIT_CARD \<in> risky
           then bind (is_credit_card (strip raw)) (\<lambda>valid.
                  if valid
                  then bind (detect_credit_card_masking (strip raw)) (\<lambda>m.
                         Inr (record_violation mv CREDIT_CARD (idx, strip raw, m) cfa))
                  else Inr cfa)
           else Inr cfa)"
    define ents :: "col_findings \<Rightarrow> error + col_findings" where "ents = (\<lambda>cfb.
               if HIGH_ENTROPY_TOKEN \<in> risky
                  \<and> is_high_entropy_token (strip raw) default_threshold
               then Inr (record_violation mv HIGH_ENTROPY_TOKEN (idx, strip raw, PLAINTEXT) cfb)
               else Inr cfb)"
    have a: "I cfa"
      unfolding cfa_def using assms(2)
      by (rule fold_invariant [where I = I]) (auto intro: rec)
    have "bind ccs ents = Inr cf1"
      unfolding ccs_def ents_def cfa_def using assms(1) Some False
      by (simp add: leakage_cell_def Let_def split del: if_split)
    then obtain cfb where b: "ccs = Inr cfb" and e: "ents cfb = Inr cf1"
      by (auto elim: bind_InrE)
    from b a have "I cfb"
      unfolding ccs_def by (auto simp: bind_Inr_iff split: if_splits intro: rec)
    with e show ?thesis
      unfolding ents_def by (auto split: if_splits intro: rec)
  qed
qed

lemma forbidden_cell_eq: "forbidden_cell = leakage_cell"
  by (intro ext) (simp add: forbidden_cell_def leakage_cell_def)

lemma leakage_scan_types:
  assumes "scan_rows (leakage_cell risky mv) 0 cells [] = Inr cf"
  shows "buckets_inv (only_types risky) cf"
  using assms
proof (rule scan_rows_invariant)
  show "buckets_inv (only_types risky) []"
    by (rule buckets_inv_empty) (simp add: only_types_def)
next
  fix idx c cf0 cf1
  assume "leakage_cell risky mv idx c cf0 = Inr cf1" "buckets_inv (only_types risky) cf0"
  then show "buckets_inv (only_types risky) cf1"
  proof (rule leakage_cell_preserves)
    fix t x s
    assume "t \<in> risky" "buckets_inv (only_types risky) s"
    then show "buckets_inv (only_types risky) (record_violation mv t x s)"
      by (intro buckets_inv_record) (simp_all add: only_types_def)
  qed
qed

lemma capped_record:
  "buckets_inv (capped mv) s \<Longrightarrow> buckets_inv (capped mv) (record_violation mv t x s)"
  by (rule buckets_inv_record) (auto simp: capped_def)

lemma leakage_scan_capped:
  assumes "scan_rows (leakage_cell risky mv) 0 cells [] = Inr cf"
  shows "buckets_inv (capped mv) cf"
  using assms
proof (rule scan_rows_invariant)
  show "buckets_inv (capped mv) []"
    by (rule buckets_inv_empty) (simp add: capped_def)
next
  fix idx c cf0 cf1
  assume "leakage_cell risky mv idx c cf0 = Inr cf1" "buckets_inv (capped mv) cf0"
  then show "buckets_inv (capped mv) cf1"
    by (rule leakage_cell_preserves) (rule capped_record)
qed

lemma leakage_finding_props:
  assumes "leakage_finding sp tp col (t, vs) = Inr fs" "f \<in> set fs"
  shows "vs \<noteq> [] \<and> pii_type f = t \<and> severity f = CRITICAL \<and> dataset f = name tp
         \<and> column f = col \<and> count f = length vs \<and> take 13 (message f) = ''PII LEAKAGE: ''"
  using assms by (cases vs) (auto simp: leakage_finding_def bind_Inr_iff)

lemma leakage_column_props:
  assumes "leakage_column sp tp risky mv (col, cells) = Inr fs" "f \<in> set fs"
  shows "pii_type f \<in> risky \<and> severity f = CRITICAL \<and> dataset f = name tp
         \<and> column f = col \<and> take 13 (message f) = ''PII LEAKAGE: ''"
proof -
  from assms(1) obtain cf fss where
    cf: "scan_rows (leakage_cell risky mv) 0 cells [] = Inr cf"
    and fss: "mapM (leakage_finding sp tp col) cf = Inr fss" "fs = concat fss"
    by (auto simp: leakage_column_def bind_Inr_iff)
  from assms(2) fss(2) obtain fs' where fs': "fs' \<in> set fss" "f \<in> set fs'" by auto
  from mapM_Inr_member [OF fss(1) fs'(1)] obtain t vs where
    e: "(t, vs) \<in> set cf" "leakage_finding sp tp col (t, vs) = Inr fs'" by auto
  note p = leakage_finding_props [OF e(2) fs'(2)]
  from leakage_scan_types [OF cf] have d: "distinct (map fst cf)"
    and o: "only_types risky t (bucket cf t)"
    by (simp_all add: buckets_inv_def)
  from bucket_entry [OF d e(1)] o p show ?thesis by (simp add: only_types_def)
qed

lemma forbidden_finding_message:
  assumes "forbidden_finding p col e = Inr fs" "g \<in> set fs"
  shows "take 13 (message g) = ''Forbidden PII''"
  using assms
  by (cases e; cases "snd e") (auto simp: forbidden_finding_def bind_Inr_iff)

lemma forbidden_message:
  assumes "assert_no_forbidden_pii df p mv = Inr r" "g \<in> set (findings r)"
  shows "take 13 (message g) = ''Forbidden PII''"
proof (cases "set (forbidden_pii_types p) = {}")
  case True
  with assms show ?thesis by (auto simp: assert_no_forbidden_pii_def)
next
  case False
  with assms obtain fs where fs: "for_columns (forbidden_column p mv) df = Inr fs" "g \<in> set fs"
    by (auto simp: assert_no_forbidden_pii_def Let_def bind_Inr_iff)
  from for_columns_member [OF fs] obtain c fs' where
    c: "forbidden_column p mv c = Inr fs'" "g \<in> set fs'" by blast
  obtain col cells where cc: "c = (col, cells)" by (cases c)
  from c(1) obtain cf fss where
    fss: "mapM (forbidden_finding p col) cf = Inr fss" "fs' = concat fss"
    by (auto simp: cc forbidden_column_def bind_Inr_iff)
  from c(2) fss(2) obtain fs'' where f2: "fs'' \<in> set fss" "g \<in> set fs''" by auto
  from mapM_Inr_member [OF fss(1) f2(1)] obtain e where
    "forbidden_finding p col e = Inr fs''" by auto
  from forbidden_finding_message [OF this f2(2)] show ?thesis .
qed

lemma leakage_early_exit:
  "forbidden_pii_types tp = [] \<Longrightarrow>
   assert_no_pii_leakage sdf tdf sp tp e mv =
     Inr \<lparr>assertion_type = ''no_pii_leakage'', ar_dataset = name sp @ '' -> '' @ name tp,
          passed = True, findings = [],
          ar_message = ''No forbidden PII types in target policy'', ar_severity = INFO\<rparr>"
  by (simp add: assert_no_pii_leakage_def)

lemma leakage_no_risky:
  "detect_pii_types_in_dataframe sdf = Inr S \<Longrightarrow> set (forbidden_pii_types tp) \<inter> S = {} \<Longrightarrow>
   \<exists>msg. assert_no_pii_leakage sdf tdf sp tp e mv =
     Inr \<lparr>assertion_type = ''no_pii_leakage'', ar_dataset = name sp @ '' -> '' @ name tp,
          passed = True, findings = [], ar_message = msg, ar_severity = INFO\<rparr>
     \<and> (\<forall>tdf'. assert_no_pii_leakage sdf tdf' sp tp e mv = assert_no_pii_leakage sdf tdf sp tp e mv)"
  by (auto simp: assert_no_pii_leakage_def Let_def)

lemma leakage_scan:
  assumes S: "detect_pii_types_in_dataframe sdf = Inr S"
    and risky: "set (forbidden_pii_types tp) \<inter> S \<noteq> {}"
    and r: "assert_no_pii_leakage sdf tdf sp tp e mv = Inr r"
  shows "for_columns (leakage_column sp tp (set (forbidden_pii_types tp) \<inter> S) mv) tdf
           = Inr (findings r)"
    and "passed r \<longleftrightarrow> findings r = []"
    and "ar_severity r = (if findings r = [] then INFO else CRITICAL)"
proof -
  from risky have ne: "set (forbidden_pii_types tp) \<noteq> {}" by auto
  define K where "K = (\<lambda>findings.
      let passed = (length findings = 0);
          severity = (if \<not> passed then CRITICAL else INFO);
          message =
            (if passed
             then ''PASS: No PII leakage detected from '' @ name sp @ '' to '' @ name tp
             else ''FAIL: '' @ str_nat (length (remdups (map pii_type findings)))
                  @ '' PII type(s) leaked from '' @ name sp @ '' to '' @ name tp @ '' (''
                  @ str_nat (sum_list (map count findings)) @ '' total occurrence(s))'')
      in (Inr \<lparr>assertion_type = ''no_pii_leakage'',
                ar_dataset = name sp @ '' -> '' @ name tp,
                passed = passed, findings = findings, ar_message = message,
                ar_severity = severity\<rparr> :: error + AssertionResult))"
  have "bind (for_columns (leakage_column sp tp (set (forbidden_pii_types tp) \<inter> S) mv) tdf) K
          = Inr r"
    unfolding K_def using r ne risky
    by (simp add: assert_no_pii_leakage_def Let_def S split del: if_split)
  then obtain fs where fs:
      "for_columns (leakage_column sp tp (set (forbidden_pii_types tp) \<inter> S) mv) tdf = Inr fs"
    and k: "K fs = Inr r"
    by (auto elim: bind_InrE)
  from k have rr: "findings r = fs" "passed r = (length fs = 0)"
      "ar_severity r = (if length fs = 0 then INFO else CRITICAL)"
    by (auto simp: K_def Let_def)
  from fs rr show
    "for_columns (leakage_column sp tp (set (forbidden_pii_types tp) \<inter> S) mv) tdf
       = Inr (findings r)"
    "passed r \<longleftrightarrow> findings r = []"
    "ar_severity r = (if findings r = [] then INFO else CRITICAL)"
    by simp_all
qed

lemma leakage_depends_on_risky:
  assumes "detect_pii_types_in_dataframe sdf = Inr S" "detect_pii_types_in_dataframe sdf' = Inr S'"
    and "set (forbidden_pii_types tp) \<inter> S' = set (forbidden_pii_types tp) \<inter> S"
  shows "assert_no_pii_leakage sdf' tdf sp tp e mv = assert_no_pii_leakage sdf tdf sp tp e mv"
  unfolding assert_no_pii_leakage_def Let_def assms bind.simps ..

text \<open>
  What holds of \<open>assert_no_pii_leakage\<close> on every input. It returns a passed result of
  severity info when the target policy forbids no PII type, whatever the two datasets hold, and
  also when the scan of the source returns a set of types none of which is forbidden in the
  target, whatever the target dataset holds. When the scan of the source returns a set with
  risky types (forbidden in the target and detected in the source) and the assertion returns,
  the result depends on the source only through the set of risky types; every finding is about
  a column of the target dataset and a risky type, has severity critical and a message that
  starts with \<open>PII LEAKAGE:\<close>, which no finding of the forbidden-PII assertion has; the result
  has passed exactly when there is no finding.
\<close>

theorem leakage_assertion_when_scans_return:
  "(forbidden_pii_types tp = [] \<longrightarrow>
      (\<exists>r. assert_no_pii_leakage sdf tdf sp tp e mv = Inr r
           \<and> passed r \<and> ar_severity r = INFO \<and> findings r = [])
      \<and> (\<forall>sdf' tdf'. assert_no_pii_leakage sdf' tdf' sp tp e mv
                        = assert_no_pii_leakage sdf tdf sp tp e mv))
   \<and> (\<forall>S. detect_pii_types_in_dataframe sdf = Inr S
            \<and> set (forbidden_pii_types tp) \<inter> S = {} \<longrightarrow>
      (\<exists>r. assert_no_pii_leakage sdf tdf sp tp e mv = Inr r
           \<and> passed r \<and> ar_severity r = INFO \<and> findings r = [])
      \<and> (\<forall>tdf'. assert_no_pii_leakage sdf tdf' sp tp e mv
                   = assert_no_pii_leakage sdf tdf sp tp e mv))
   \<and> (\<forall>S r. detect_pii_types_in_dataframe sdf = Inr S
            \<and> set (forbidden_pii_types tp) \<inter> S \<noteq> {}
            \<and> assert_no_pii_leakage sdf tdf sp tp e mv = Inr r \<longrightarrow>
      (\<forall>f \<in> set (findings r).
          severity f = CRITICAL
          \<and> pii_type f \<in> set (forbidden_pii_types tp) \<inter> S
          \<and> dataset f = name tp
          \<and> column f \<in> fst ` set tdf
          \<and> take 13 (message f) = ''PII LEAKAGE: ''
          \<and> (\<forall>df p m r' g. assert_no_forbidden_pii df p m = Inr r' \<and> g \<in> set (findings r')
                 \<longrightarrow> message g \<noteq> message f))
      \<and> (passed r \<longleftrightarrow> findings r = [])
      \<and> ar_severity r = (if findings r = [] then INFO else CRITICAL)
      \<and> (\<forall>sdf' S'. detect_pii_types_in_dataframe sdf' = Inr S'
             \<and> set (forbidden_pii_types tp) \<inter> S' = set (forbidden_pii_types tp) \<inter> S
             \<longrightarrow> assert_no_pii_leakage sdf' tdf sp tp e mv = Inr r))"
proof (intro conjI allI impI)
  assume "forbidden_pii_types tp = []"
  then show "\<exists>r. assert_no_pii_leakage sdf tdf sp tp e mv = Inr r
           \<and> passed r \<and> ar_severity r = INFO \<and> findings r = []"
    by (simp add: leakage_early_exit)
next
  fix sdf' tdf'
  assume "forbidden_pii_types tp = []"
  then show "assert_no_pii_leakage sdf' tdf' sp tp e mv = assert_no_pii_leakage sdf tdf sp tp e mv"
    by (simp add: leakage_early_exit)
next
  fix S
  assume "detect_pii_types_in_dataframe sdf = Inr S \<and> set (forbidden_pii_types tp) \<inter> S = {}"
  then show "\<exists>r. assert_no_pii_leakage sdf tdf sp tp e mv = Inr r
           \<and> passed r \<and> ar_severity r = INFO \<and> findings r = []"
    using leakage_no_risky [of sdf S tp tdf sp e mv] by auto
next
  fix S tdf'
  assume "detect_pii_types_in_dataframe sdf = Inr S \<and> set (forbidden_pii_types tp) \<inter> S = {}"
  then show "assert_no_pii_leakage sdf tdf' sp tp e mv = assert_no_pii_leakage sdf tdf sp tp e mv"
    using leakage_no_risky [of sdf S tp tdf sp e mv] by auto
next
  fix S r
  assume a: "detect_pii_types_in_dataframe sdf = Inr S
            \<and> set (forbidden_pii_types tp) \<inter> S \<noteq> {}
            \<and> assert_no_pii_leakage sdf tdf sp tp e mv = Inr r"
  note scan = leakage_scan [of sdf S tp tdf sp e mv r]
  show "\<forall>f \<in> set (findings r).
          severity f = CRITICAL
          \<and> pii_type f \<in> set (forbidden_pii_types tp) \<inter> S
          \<and> dataset f = name tp
          \<and> column f \<in> fst ` set tdf
          \<and> take 13 (message f) = ''PII LEAKAGE: ''
          \<and> (\<forall>df p m r' g. assert_no_forbidden_pii df p m = Inr r' \<and> g \<in> set (findings r')
                 \<longrightarrow> message g \<noteq> message f)"
  proof
    fix f assume f: "f \<in> set (findings r)"
    from for_columns_member [OF scan(1) f] a obtain c fs' where
      c: "c \<in> set tdf" "leakage_column sp tp (set (forbidden_pii_types tp) \<inter> S) mv c = Inr fs'"
         "f \<in> set fs'" by blast
    obtain col cells where cc: "c = (col, cells)" by (cases c)
    note p = leakage_column_props [OF c(2) [unfolded cc] c(3)]
    have "message g \<noteq> message f"
      if "assert_no_forbidden_pii df p m = Inr r'" "g \<in> set (findings r')" for df p m r' g
    proof -
      from forbidden_message [OF that] p have "take 13 (message g) \<noteq> take 13 (message f)" by simp
      then show ?thesis by auto
    qed
    moreover have "column f \<in> fst ` set tdf"
      using c(1) cc p by force
    ultimately show "severity f = CRITICAL
          \<and> pii_type f \<in> set (forbidden_pii_types tp) \<inter> S
          \<and> dataset f = name tp
          \<and> column f \<in> fst ` set tdf
          \<and> take 13 (message f) = ''PII LEAKAGE: ''
          \<and> (\<forall>df p m r' g. assert_no_forbidden_pii df p m = Inr r' \<and> g \<in> set (findings r')
                 \<longrightarrow> message g \<noteq> message f)"
      using p by blast
  qed
  from scan(2) a show "passed r \<longleftrightarrow> findings r = []" by blast
  from scan(3) a show "ar_severity r = (if findings r = [] then INFO else CRITICAL)" by blast
next
  fix S r sdf' S'
  assume a: "detect_pii_types_in_dataframe sdf = Inr S
            \<and> set (forbidden_pii_types tp) \<inter> S \<noteq> {}
            \<and> assert_no_pii_leakage sdf tdf sp tp e mv = Inr r"
    and b: "detect_pii_types_in_dataframe sdf' = Inr S'
             \<and> set (forbidden_pii_types tp) \<inter> S' = set (forbidden_pii_types tp) \<inter> S"
  then show "assert_no_pii_leakage sdf' tdf sp tp e mv = Inr r"
    using leakage_depends_on_risky [of sdf S sdf' S' tp tdf sp e mv] by simp
qed

lemma flow_w1: "forbidden_pii_types (flow_policy ''target'' [] []) = []" by (simp add: flow_policy_def)
lemma flow_w2: "detect_pii_types_in_dataframe [(''email'', [Some ''a@x.com''])] = Inr {EMAIL}"
  by code_simp
lemma flow_w3: "set (forbidden_pii_types (flow_policy ''target'' [] [SSN])) \<inter> {EMAIL} = {}" by (simp add: flow_policy_def)
lemma flow_w4: "detect_pii_types_in_dataframe
     [(''email'', [Some ''john@example.com'', Some ''jane@example.com''])] = Inr {EMAIL}"
  by code_simp
lemma flow_w5: "map_sum id (\<lambda>r. map severity (findings r))
     (assert_no_pii_leakage
        [(''email'', [Some ''john@example.com'', Some ''jane@example.com''])]
        [(''contact'', [Some ''john@example.com'', Some ''jane@example.com''])]
        (flow_policy ''source'' [EMAIL] []) (flow_policy ''target'' [] [EMAIL])
        \<lparr>source = ''source'', target = ''target''\<rparr> 10) = Inr [CRITICAL]"
  by code_simp

theorem leakage_assertion_examples:
  "(\<exists>r. assert_no_pii_leakage [(''email'', [Some ''a@x.com''])] [(''email'', [Some ''a@x.com''])]
          (flow_policy ''source'' [EMAIL] []) (flow_policy ''target'' [] [])
          \<lparr>source = ''source'', target = ''target''\<rparr> 10 = Inr r
        \<and> passed r \<and> ar_severity r = INFO \<and> findings r = [])
   \<and> (\<exists>r. assert_no_pii_leakage [(''email'', [Some ''a@x.com''])] [(''ssn'', [Some ''123-45-6789''])]
          (flow_policy ''source'' [EMAIL] []) (flow_policy ''target'' [] [SSN])
          \<lparr>source = ''source'', target = ''target''\<rparr> 10 = Inr r
        \<and> passed r \<and> ar_severity r = INFO \<and> findings r = [])
   \<and> (\<exists>r. assert_no_pii_leakage
          [(''email'', [Some ''john@example.com'', Some ''jane@example.com''])]
          [(''contact'', [Some ''john@example.com'', Some ''jane@example.com''])]
          (flow_policy ''source'' [EMAIL] []) (flow_policy ''target'' [] [EMAIL])
          \<lparr>source = ''source'', target = ''target''\<rparr> 10 = Inr r
        \<and> \<not> passed r \<and> ar_severity r = CRITICAL \<and> findings r \<noteq> []
        \<and> (\<forall>f \<in> set (findings r). severity f = CRITICAL \<and> pii_type f = EMAIL
              \<and> column f = ''contact'' \<and> take 13 (message f) = ''PII LEAKAGE: ''))"
proof (intro conjI)
  show "\<exists>r. assert_no_pii_leakage [(''email'', [Some ''a@x.com''])] [(''email'', [Some ''a@x.com''])]
          (flow_policy ''source'' [EMAIL] []) (flow_policy ''target'' [] [])
          \<lparr>source = ''source'', target = ''target''\<rparr> 10 = Inr r
        \<and> passed r \<and> ar_severity r = INFO \<and> findings r = []"
    using leakage_assertion_when_scans_return [of "flow_policy ''target'' [] []" "[(''email'', [Some ''a@x.com''])]"
        "[(''email'', [Some ''a@x.com''])]" "flow_policy ''source'' [EMAIL] []"
        "\<lparr>source = ''source'', target = ''target''\<rparr>" 10] flow_w1
    by blast
  show "\<exists>r. assert_no_pii_leakage [(''email'', [Some ''a@x.com''])] [(''ssn'', [Some ''123-45-6789''])]
          (flow_policy ''source'' [EMAIL] []) (flow_policy ''target'' [] [SSN])
          \<lparr>source = ''source'', target = ''target''\<rparr> 10 = Inr r
        \<and> passed r \<and> ar_severity r = INFO \<and> findings r = []"
    using leakage_assertion_when_scans_return [of "flow_policy ''target'' [] [SSN]" "[(''email'', [Some ''a@x.com''])]"
        "[(''ssn'', [Some ''123-45-6789''])]" "flow_policy ''source'' [EMAIL] []"
        "\<lparr>source = ''source'', target = ''target''\<rparr>" 10] flow_w2 flow_w3
    by blast
  let ?sdf = "[(''email'', [Some ''john@example.com'', Some ''jane@example.com''])]"
  let ?tdf = "[(''contact'', [Some ''john@example.com'', Some ''jane@example.com''])]"
  let ?run = "assert_no_pii_leakage ?sdf ?tdf (flow_policy ''source'' [EMAIL] []) (flow_policy ''target'' [] [EMAIL])
          \<lparr>source = ''source'', target = ''target''\<rparr> 10"
  from flow_w5 obtain r where r: "?run = Inr r" and sev: "map severity (findings r) = [CRITICAL]"
    by (cases ?run) auto
  have risky: "set (forbidden_pii_types (flow_policy ''target'' [] [EMAIL])) \<inter> {EMAIL} = {EMAIL}"
    by (simp add: flow_policy_def)
  note c3 = leakage_assertion_when_scans_return [of "flow_policy ''target'' [] [EMAIL]" ?sdf ?tdf "flow_policy ''source'' [EMAIL] []"
        "\<lparr>source = ''source'', target = ''target''\<rparr>" 10]
  from c3 flow_w4 r risky have
    all: "\<forall>f \<in> set (findings r).
          severity f = CRITICAL
          \<and> pii_type f \<in> {EMAIL}
          \<and> column f \<in> fst ` set ?tdf
          \<and> take 13 (message f) = ''PII LEAKAGE: ''"
    and res: "passed r \<longleftrightarrow> findings r = []"
      "ar_severity r = (if findings r = [] then INFO else CRITICAL)"
    by auto
  from sev have ne: "findings r \<noteq> []" by auto
  show "\<exists>r. ?run = Inr r
        \<and> \<not> passed r \<and> ar_severity r = CRITICAL \<and> findings r \<noteq> []
        \<and> (\<forall>f \<in> set (findings r). severity f = CRITICAL \<and> pii_type f = EMAIL
              \<and> column f = ''contact'' \<and> take 13 (message f) = ''PII LEAKAGE: '')"
    using r all res ne by auto
qed

lemma superscript_digits_raise:
  "py_isdigit (replicate 13 CHR 0xB2)
   \<and> is_credit_card (replicate 13 CHR 0xB2) = Inl ValueError"
  by code_simp

text \<open>
  Claim C3 says that \<open>assert_no_pii_leakage\<close> returns a passed result of severity info
  whenever no PII type detected in the source dataset is forbidden in the target. On a source
  whose only cell holds thirteen superscript digits (U+00B2) no matcher detects a PII type and
  the value is no high entropy token, but \<open>is_credit_card\<close> raises \<open>ValueError\<close> on it
  (\<^verbatim>\<open>str.isdigit\<close> accepts the character, \<^verbatim>\<open>int\<close> does not), and the assertion raises
  with it instead of returning.
\<close>

theorem C3_source_scan_raises:
  "detect_pii_in_value (replicate 13 CHR 0xB2) = []
   \<and> \<not> is_high_entropy_token (replicate 13 CHR 0xB2) default_threshold
   \<and> assert_no_pii_leakage [(''card'', [Some (replicate 13 CHR 0xB2)])]
         [(''contact'', [Some ''john@example.com''])]
         (flow_policy ''source'' [] []) (flow_policy ''target'' [] [EMAIL])
         \<lparr>source = ''source'', target = ''target''\<rparr> 10 = Inl ValueError"
  by code_simp

section \<open>Proofs: the masking assertion\<close>

lemma is_violation_rule: "is_violation (set ha) t m = violation_rule ha t m"
  by (cases m) (simp_all add: is_violation_def violation_rule_def)

lemma masking_cell_preserves:
  assumes "masking_cell req ha mv idx c cf = Inr cf1" "I cf"
    and "\<And>raw t m s. c = Some raw \<Longrightarrow> strip raw \<noteq> [] \<Longrightarrow> detected_occurrence (strip raw) t m
           \<Longrightarrow> t \<in> req \<Longrightarrow> is_violation ha t m \<Longrightarrow> I s
           \<Longrightarrow> I (record_violation mv t (idx, strip raw, m) s)"
  shows "I cf1"
proof (cases c)
  case None
  with assms(1,2) show ?thesis by (simp add: masking_cell_def)
next
  case (Some raw)
  show ?thesis
  proof (cases "strip raw = []")
    case True
    with Some assms(1,2) show ?thesis by (simp add: masking_cell_def)
  next
    case False
    note rec = assms(3) [OF Some False]
    have rec1: "I (record_violation mv t (idx, strip raw, m) s)"
      if "(t, m) \<in> set (detect_pii_in_value (strip raw))" "t \<in> req" "is_violation ha t m"
        "I s" for t m s
      using that by (intro rec) (simp_all add: detected_occurrence_def)
    have rec2: "I (record_violation mv CREDIT_CARD (idx, strip raw, m) s)"
      if "is_credit_card (strip raw) = Inr True" "detect_credit_card_masking (strip raw) = Inr m"
        "CREDIT_CARD \<in> req" "is_violation ha CREDIT_CARD m" "I s" for m s
      using that by (intro rec) (simp_all add: detected_occurrence_def)
    define cfa where "cfa = fold (\<lambda>(t, m) cf.
                             if t \<in> req
                             then (if is_violation ha t m
                                   then record_violation mv t (idx, strip raw, m) cf
                                   else cf)
                             else cf)
              (detect_pii_in_value (strip raw)) cf"
    have a: "I cfa"
      unfolding cfa_def using assms(2)
      by (rule fold_invariant [where I = I]) (auto intro: rec1)
    have "(if CREDIT_CARD \<in> req
           then bind (is_credit_card (strip raw)) (\<lambda>valid.
                  if valid
                  then bind (detect_credit_card_masking (strip raw)) (\<lambda>m.
                         if is_violation ha CREDIT_CARD m
                         then Inr (record_violation mv CREDIT_CARD (idx, strip raw, m) cfa)
                         else Inr cfa)
                  else Inr cfa)
           else Inr cfa) = Inr cf1"
      unfolding cfa_def using assms(1) Some False
      by (simp add: masking_cell_def Let_def split del: if_split)
    with a show ?thesis
      by (auto simp: bind_Inr_iff split: if_splits intro: rec2)
  qed
qed

lemma masking_cell_inv:
  assumes "masking_cell req ha mv idx c cf = Inr cf1" "buckets_inv R cf"
    and "\<And>raw t m vs. c = Some raw \<Longrightarrow> strip raw \<noteq> [] \<Longrightarrow> detected_occurrence (strip raw) t m
           \<Longrightarrow> t \<in> req \<Longrightarrow> is_violation ha t m \<Longrightarrow> R t vs
           \<Longrightarrow> R t (vs @ [(idx, strip raw, m)])"
  shows "buckets_inv R cf1"
  using assms(1,2)
proof (rule masking_cell_preserves)
  fix raw t m s
  assume a: "c = Some raw" "strip raw \<noteq> []" "detected_occurrence (strip raw) t m" "t \<in> req"
    "is_violation ha t m" and s: "buckets_inv R s"
  from s show "buckets_inv R (record_violation mv t (idx, strip raw, m) s)"
    by (rule buckets_inv_record) (rule assms(3) [OF a])
qed

lemma record_violation_keeps:
  "bucket cf t \<noteq> [] \<Longrightarrow> bucket (record_violation mv t' x cf) t \<noteq> []"
  by (simp add: bucket_record_violation)

lemma record_violation_makes:
  "0 < mv \<Longrightarrow> bucket (record_violation mv t x cf) t \<noteq> []"
  by (auto simp: bucket_record_violation)

lemma masking_cell_keeps:
  assumes "masking_cell req ha mv idx c cf = Inr cf1" "bucket cf t \<noteq> []"
  shows "bucket cf1 t \<noteq> []"
  using assms
  by (rule masking_cell_preserves [where I = "\<lambda>cf. bucket cf t \<noteq> []"])
     (rule record_violation_keeps)

lemma masking_cell_makes:
  assumes cell: "masking_cell req ha mv idx (Some raw) cf = Inr cf1"
    and ne: "strip raw \<noteq> []" and occ: "detected_occurrence (strip raw) t m"
    and t: "t \<in> req" "is_violation ha t m" and mv: "0 < mv"
  shows "bucket cf1 t \<noteq> []"
proof -
  let ?g = "\<lambda>(t, m) cf.
               if t \<in> req
               then (if is_violation ha t m
                     then record_violation mv t (idx, strip raw, m) cf
                     else cf)
               else cf"
  define cfa where "cfa = fold ?g (detect_pii_in_value (strip raw)) cf"
  have fin: "(if CREDIT_CARD \<in> req
           then bind (is_credit_card (strip raw)) (\<lambda>valid.
                  if valid
                  then bind (detect_credit_card_masking (strip raw)) (\<lambda>m.
                         if is_violation ha CREDIT_CARD m
                         then Inr (record_violation mv CREDIT_CARD (idx, strip raw, m) cfa)
                         else Inr cfa)
                  else Inr cfa)
           else Inr cfa) = Inr cf1"
    unfolding cfa_def using cell ne
    by (simp add: masking_cell_def Let_def split del: if_split)
  from occ show ?thesis
    unfolding detected_occurrence_def
  proof
    assume "(t, m) \<in> set (detect_pii_in_value (strip raw))"
    then have "bucket cfa t \<noteq> []"
      unfolding cfa_def
      by (rule fold_establish [where P = "\<lambda>cf. bucket cf t \<noteq> []"])
         (auto simp: t mv record_violation_makes record_violation_keeps split: if_splits)
    with fin show ?thesis
      by (auto simp: bind_Inr_iff record_violation_keeps split: if_splits)
  next
    assume "t = CREDIT_CARD \<and> is_credit_card (strip raw) = Inr True
            \<and> detect_credit_card_masking (strip raw) = Inr m"
    with fin t mv show ?thesis
      by (auto simp: bind_Inr_iff record_violation_makes)
  qed
qed

lemma masking_scan_sound:
  assumes "scan_rows (masking_cell req (set ha) mv) 0 cells [] = Inr cf"
  shows "buckets_inv (sound_bucket req ha cells) cf"
  using assms
proof (rule scan_rows_invariant_idx)
  show "buckets_inv (sound_bucket req ha cells) []"
    by (rule buckets_inv_empty) (simp add: sound_bucket_def)
next
  fix k cf0 cf1
  assume k: "k < length cells"
    and step: "masking_cell req (set ha) mv (0 + k) (cells ! k) cf0 = Inr cf1"
      "buckets_inv (sound_bucket req ha cells) cf0"
  from step show "buckets_inv (sound_bucket req ha cells) cf1"
  proof (rule masking_cell_inv [where R = "sound_bucket req ha cells"])
    fix raw t m vs
    assume "cells ! k = Some raw" "strip raw \<noteq> []" "detected_occurrence (strip raw) t m"
      "t \<in> req" "is_violation (set ha) t m" "sound_bucket req ha cells t vs"
    with k show "sound_bucket req ha cells t (vs @ [(0 + k, strip raw, m)])"
      by (auto simp: sound_bucket_def recorded_in_def is_violation_rule)
  qed
qed

lemma masking_finding_props:
  assumes "masking_finding p col (t, vs) = Inr fs" "f \<in> set fs"
  shows "vs \<noteq> [] \<and> pii_type f = t \<and> column f = col \<and> dataset f = name p
         \<and> masking_type f = snd (snd (hd vs)) \<and> row_index f = Some (fst (hd vs))
         \<and> count f = length vs
         \<and> severity f = (if masking_type f = PLAINTEXT then CRITICAL
                          else if masking_type f = HASH then HIGH else MEDIUM)"
  using assms by (cases vs) (auto simp: masking_finding_def bind_Inr_iff split: if_splits)

lemma masking_column_sound:
  assumes "masking_column p mv (col, cells) = Inr fs" "f \<in> set fs"
  shows "column f = col \<and> pii_type f \<in> set (masking_required_for p)
         \<and> violation_rule (hash_allowed_for p) (pii_type f) (masking_type f)
         \<and> (\<exists>idx v. row_index f = Some idx
                \<and> recorded_in cells (pii_type f) (idx, v, masking_type f))
         \<and> severity f = (if masking_type f = PLAINTEXT then CRITICAL
                          else if masking_type f = HASH then HIGH else MEDIUM)"
proof -
  let ?req = "set (masking_required_for p)" and ?ha = "hash_allowed_for p"
  from assms(1) obtain cf fss where
    cf: "scan_rows (masking_cell ?req (set ?ha) mv) 0 cells [] = Inr cf"
    and fss: "mapM (masking_finding p col) cf = Inr fss" "fs = concat fss"
    by (auto simp: masking_column_def bind_Inr_iff)
  from assms(2) fss(2) obtain fs' where fs': "fs' \<in> set fss" "f \<in> set fs'" by auto
  from mapM_Inr_member [OF fss(1) fs'(1)] obtain t vs where
    e: "(t, vs) \<in> set cf" "masking_finding p col (t, vs) = Inr fs'" by auto
  note pr = masking_finding_props [OF e(2) fs'(2)]
  from masking_scan_sound [OF cf] have d: "distinct (map fst cf)"
    and o: "sound_bucket ?req ?ha cells t (bucket cf t)"
    by (simp_all add: buckets_inv_def)
  from bucket_entry [OF d e(1)] o have sb: "sound_bucket ?req ?ha cells t vs" by simp
  from pr have "hd vs \<in> set vs" by simp
  with sb have h: "t \<in> ?req" "recorded_in cells t (hd vs)" "violation_rule ?ha t (snd (snd (hd vs)))"
    by (auto simp: sound_bucket_def)
  obtain idx v m where x: "hd vs = (idx, v, m)" by (cases "hd vs")
  with pr h show ?thesis by auto
qed

lemma masking_finding_made:
  assumes "masking_finding p col (t, vs) = Inr fs" "vs \<noteq> []"
  shows "\<exists>f \<in> set fs. pii_type f = t \<and> column f = col"
  using assms by (cases vs) (auto simp: masking_finding_def bind_Inr_iff split: if_splits)

lemma masking_column_complete:
  assumes col: "masking_column p mv (col, cells) = Inr fs"
    and cell: "Some raw \<in> set cells" "strip raw \<noteq> []" "detected_occurrence (strip raw) t m"
    and t: "t \<in> set (masking_required_for p)" "violation_rule (hash_allowed_for p) t m"
    and mv: "0 < mv"
  shows "\<exists>f \<in> set fs. pii_type f = t \<and> column f = col"
proof -
  let ?req = "set (masking_required_for p)" and ?ha = "set (hash_allowed_for p)"
  from col obtain cf fss where
    cf: "scan_rows (masking_cell ?req ?ha mv) 0 cells [] = Inr cf"
    and fss: "mapM (masking_finding p col) cf = Inr fss" "fs = concat fss"
    by (auto simp: masking_column_def bind_Inr_iff)
  from cf cell(1) have "bucket cf t \<noteq> []"
  proof (rule scan_rows_establish)
    fix idx cf0 cf1
    assume "masking_cell ?req ?ha mv idx (Some raw) cf0 = Inr cf1"
    then show "bucket cf1 t \<noteq> []"
      using cell(2,3) t(1) _ mv by (rule masking_cell_makes) (simp add: is_violation_rule t(2))
  next
    fix idx c' cf0 cf1
    assume "masking_cell ?req ?ha mv idx c' cf0 = Inr cf1" "bucket cf0 t \<noteq> []"
    then show "bucket cf1 t \<noteq> []" by (rule masking_cell_keeps)
  qed
  then have e: "(t, bucket cf t) \<in> set cf" and ne: "bucket cf t \<noteq> []"
    by (simp_all add: entry_bucket)
  from mapM_Inr_image [OF fss(1) e] obtain fs' where
    fs': "fs' \<in> set fss" "masking_finding p col (t, bucket cf t) = Inr fs'" by auto
  from masking_finding_made [OF fs'(2) ne] fs'(1) fss(2) show ?thesis by auto
qed

lemma masking_findings:
  assumes "assert_masking_applied df p mv = Inr r" "f \<in> set (findings r)"
  shows "for_columns (masking_column p mv) df = Inr (findings r)"
proof (cases "set (masking_required_for p) = {}")
  case True
  with assms show ?thesis by (auto simp: assert_masking_applied_def)
next
  case False
  with assms(1) show ?thesis
    by (auto simp: assert_masking_applied_def Let_def bind_Inr_iff)
qed

lemma masking_findings_nonempty:
  assumes "assert_masking_applied df p mv = Inr r" "t \<in> set (masking_required_for p)"
  shows "for_columns (masking_column p mv) df = Inr (findings r)"
proof -
  from assms(2) have "masking_required_for p \<noteq> []" by auto
  with assms(1) show ?thesis
    by (auto simp: assert_masking_applied_def Let_def bind_Inr_iff)
qed

text \<open>
  Claim C4. In \<open>assert_masking_applied\<close> a detected occurrence of a type that requires masking is
  a violation exactly when its masking is plaintext, or is hash while the type is not in
  \<open>hash_allowed_for\<close>; partial masks, full masks and tokens are never violations. So every
  finding is about a required type and a detected occurrence in its column whose masking is
  plaintext or a hash that is not allowed, and every such occurrence leads to a finding for its
  column and type (when \<open>max_violations\<close> is positive). The severity of a finding is critical
  when its masking type is plaintext, high when it is hash, and medium otherwise.
\<close>

theorem C4_masking_violation_rule:
  "(is_violation (set (hash_allowed_for p)) t m
      \<longleftrightarrow> m = PLAINTEXT \<or> (m = HASH \<and> t \<notin> set (hash_allowed_for p)))
   \<and> \<not> is_violation (set (hash_allowed_for p)) t PARTIAL_MASK
   \<and> \<not> is_violation (set (hash_allowed_for p)) t FULL_MASK
   \<and> \<not> is_violation (set (hash_allowed_for p)) t TOKENIZED
   \<and> (\<forall>r. assert_masking_applied df p mv = Inr r \<longrightarrow>
        (\<forall>f \<in> set (findings r).
            pii_type f \<in> set (masking_required_for p)
          \<and> (masking_type f = PLAINTEXT
               \<or> (masking_type f = HASH \<and> pii_type f \<notin> set (hash_allowed_for p)))
          \<and> (\<exists>cells idx v. (column f, cells) \<in> set df \<and> row_index f = Some idx
                 \<and> recorded_in cells (pii_type f) (idx, v, masking_type f))
          \<and> severity f = (if masking_type f = PLAINTEXT then CRITICAL
                           else if masking_type f = HASH then HIGH else MEDIUM))
        \<and> (\<forall>col cells raw t' m'.
              0 < mv \<and> (col, cells) \<in> set df \<and> Some raw \<in> set cells \<and> strip raw \<noteq> []
              \<and> detected_occurrence (strip raw) t' m'
              \<and> t' \<in> set (masking_required_for p)
              \<and> (m' = PLAINTEXT \<or> (m' = HASH \<and> t' \<notin> set (hash_allowed_for p)))
              \<longrightarrow> (\<exists>f \<in> set (findings r). column f = col \<and> pii_type f = t')))"
proof (intro conjI allI impI ballI)
  show "is_violation (set (hash_allowed_for p)) t m
      \<longleftrightarrow> m = PLAINTEXT \<or> (m = HASH \<and> t \<notin> set (hash_allowed_for p))"
    by (simp add: is_violation_rule violation_rule_def)
  show "\<not> is_violation (set (hash_allowed_for p)) t PARTIAL_MASK"
    "\<not> is_violation (set (hash_allowed_for p)) t FULL_MASK"
    "\<not> is_violation (set (hash_allowed_for p)) t TOKENIZED"
    by (simp_all add: is_violation_def)
next
  fix r f
  assume r: "assert_masking_applied df p mv = Inr r" and f: "f \<in> set (findings r)"
  from for_columns_member [OF masking_findings [OF r f] f] obtain c fs' where
    c: "c \<in> set df" "masking_column p mv c = Inr fs'" "f \<in> set fs'" by blast
  obtain col cells where cc: "c = (col, cells)" by (cases c)
  note s = masking_column_sound [OF c(2) [unfolded cc] c(3)]
  from s show "pii_type f \<in> set (masking_required_for p)" by simp
  from s show "masking_type f = PLAINTEXT
               \<or> (masking_type f = HASH \<and> pii_type f \<notin> set (hash_allowed_for p))"
    by (simp add: violation_rule_def)
  from s c(1) cc show "\<exists>cells idx v. (column f, cells) \<in> set df \<and> row_index f = Some idx
                 \<and> recorded_in cells (pii_type f) (idx, v, masking_type f)"
    by blast
  from s show "severity f = (if masking_type f = PLAINTEXT then CRITICAL
                           else if masking_type f = HASH then HIGH else MEDIUM)"
    by simp
next
  fix r col cells raw t' m'
  assume r: "assert_masking_applied df p mv = Inr r"
    and a: "0 < mv \<and> (col, cells) \<in> set df \<and> Some raw \<in> set cells \<and> strip raw \<noteq> []
              \<and> detected_occurrence (strip raw) t' m'
              \<and> t' \<in> set (masking_required_for p)
              \<and> (m' = PLAINTEXT \<or> (m' = HASH \<and> t' \<notin> set (hash_allowed_for p)))"
  from a have t': "t' \<in> set (masking_required_for p)" by simp
  from for_columns_subset [OF masking_findings_nonempty [OF r t']] a obtain fs' where
    fs': "masking_column p mv (col, cells) = Inr fs'" "set fs' \<subseteq> set (findings r)"
    by blast
  from a have "\<exists>f \<in> set fs'. pii_type f = t' \<and> column f = col"
    by (intro masking_column_complete [OF fs'(1), of raw t' m']) (simp_all add: violation_rule_def)
  with fs'(2) show "\<exists>f \<in> set (findings r). column f = col \<and> pii_type f = t'" by blast
qed

lemma masking_w1: "map_sum id (\<lambda>r. map severity (findings r))
     (assert_masking_applied [(''ssn'', [Some ''123-45-6789'', Some ''234-56-7890''])]
        (masking_policy [SSN] []) 10) = Inr [CRITICAL]"
  by code_simp

lemma masking_w2: "detected_occurrence (strip ''123-45-6789'') SSN PLAINTEXT \<and> strip ''123-45-6789'' \<noteq> []"
  by code_simp

theorem C4_masking_violation_rule_witness:
  "\<exists>r. assert_masking_applied [(''ssn'', [Some ''123-45-6789'', Some ''234-56-7890''])]
          (masking_policy [SSN] []) 10 = Inr r
       \<and> (\<exists>f \<in> set (findings r). column f = ''ssn'' \<and> pii_type f = SSN)
       \<and> (\<forall>f \<in> set (findings r). pii_type f = SSN \<and> masking_type f = PLAINTEXT
             \<and> severity f = CRITICAL)"
proof -
  let ?df = "[(''ssn'', [Some ''123-45-6789'', Some ''234-56-7890''])]"
  let ?p = "masking_policy [SSN] []"
  from masking_w1 obtain r where r: "assert_masking_applied ?df ?p 10 = Inr r"
    by (cases "assert_masking_applied ?df ?p 10") auto
  note c4 = C4_masking_violation_rule [of ?p SSN PLAINTEXT ?df 10]
  have req: "set (masking_required_for ?p) = {SSN}" "set (hash_allowed_for ?p) = {}"
    by (simp_all add: masking_policy_def)
  from c4 r have
    sound: "\<forall>f \<in> set (findings r).
            pii_type f \<in> set (masking_required_for ?p)
          \<and> (masking_type f = PLAINTEXT
               \<or> (masking_type f = HASH \<and> pii_type f \<notin> set (hash_allowed_for ?p)))
          \<and> (\<exists>cells idx v. (column f, cells) \<in> set ?df \<and> row_index f = Some idx
                 \<and> recorded_in cells (pii_type f) (idx, v, masking_type f))
          \<and> severity f = (if masking_type f = PLAINTEXT then CRITICAL
                           else if masking_type f = HASH then HIGH else MEDIUM)"
    and complete: "\<forall>col cells raw t' m'.
              0 < (10::int) \<and> (col, cells) \<in> set ?df \<and> Some raw \<in> set cells \<and> strip raw \<noteq> []
              \<and> detected_occurrence (strip raw) t' m'
              \<and> t' \<in> set (masking_required_for ?p)
              \<and> (m' = PLAINTEXT \<or> (m' = HASH \<and> t' \<notin> set (hash_allowed_for ?p)))
              \<longrightarrow> (\<exists>f \<in> set (findings r). column f = col \<and> pii_type f = t')"
    by blast+
  from complete [rule_format, of "''ssn''" "[Some ''123-45-6789'', Some ''234-56-7890'']"
      "''123-45-6789''" SSN PLAINTEXT] masking_w2 req
  have ex: "\<exists>f \<in> set (findings r). column f = ''ssn'' \<and> pii_type f = SSN" by simp
  have all: "\<forall>f \<in> set (findings r). pii_type f = SSN \<and> masking_type f = PLAINTEXT
             \<and> severity f = CRITICAL"
  proof
    fix f assume f: "f \<in> set (findings r)"
    with masking_w1 r have "severity f = CRITICAL" by (cases "findings r") auto
    with sound f req show "pii_type f = SSN \<and> masking_type f = PLAINTEXT \<and> severity f = CRITICAL"
      by (auto split: if_splits)
  qed
  from r ex all show ?thesis by blast
qed

section \<open>Where the code departs from the claims\<close>

lemma forbidden_finding_props:
  assumes "forbidden_finding p col (t, vs) = Inr fs" "f \<in> set fs"
  shows "vs \<noteq> [] \<and> pii_type f = t \<and> column f = col \<and> count f = length vs
         \<and> severity f = CRITICAL"
  using assms by (cases vs) (auto simp: forbidden_finding_def bind_Inr_iff)

lemma forbidden_findings:
  assumes "assert_no_forbidden_pii df p mv = Inr r" "f \<in> set (findings r)"
  shows "for_columns (forbidden_column p mv) df = Inr (findings r)"
proof (cases "set (forbidden_pii_types p) = {}")
  case True
  with assms show ?thesis by (auto simp: assert_no_forbidden_pii_def)
next
  case False
  with assms(1) show ?thesis
    by (auto simp: assert_no_forbidden_pii_def Let_def bind_Inr_iff)
qed

lemma forbidden_count_capped:
  assumes "assert_no_forbidden_pii df p mv = Inr r" "f \<in> set (findings r)"
  shows "int (count f) \<le> mv"
proof -
  from for_columns_member [OF forbidden_findings [OF assms] assms(2)] obtain c fs' where
    c: "forbidden_column p mv c = Inr fs'" "f \<in> set fs'" by blast
  obtain col cells where cc: "c = (col, cells)" by (cases c)
  from c(1) obtain cf fss where
    cf: "scan_rows (leakage_cell (set (forbidden_pii_types p)) mv) 0 cells [] = Inr cf"
    and fss: "mapM (forbidden_finding p col) cf = Inr fss" "fs' = concat fss"
    by (auto simp: cc forbidden_column_def forbidden_cell_eq bind_Inr_iff)
  from c(2) fss(2) obtain fs'' where f2: "fs'' \<in> set fss" "f \<in> set fs''" by auto
  from mapM_Inr_member [OF fss(1) f2(1)] obtain t vs where
    e: "(t, vs) \<in> set cf" "forbidden_finding p col (t, vs) = Inr fs''" by auto
  note pr = forbidden_finding_props [OF e(2) f2(2)]
  from leakage_scan_capped [OF cf] have "distinct (map fst cf)" "capped mv t (bucket cf t)"
    by (simp_all add: buckets_inv_def)
  with bucket_entry [OF _ e(1)] pr show ?thesis by (simp add: capped_def)
qed

lemma masking_scan_capped:
  assumes "scan_rows (masking_cell req ha mv) 0 cells [] = Inr cf"
  shows "buckets_inv (capped mv) cf"
  using assms
proof (rule scan_rows_invariant)
  show "buckets_inv (capped mv) []"
    by (rule buckets_inv_empty) (simp add: capped_def)
next
  fix idx c cf0 cf1
  assume "masking_cell req ha mv idx c cf0 = Inr cf1" "buckets_inv (capped mv) cf0"
  then show "buckets_inv (capped mv) cf1"
    by (rule masking_cell_preserves) (rule capped_record)
qed

lemma masking_count_capped:
  assumes "assert_masking_applied df p mv = Inr r" "f \<in> set (findings r)"
  shows "int (count f) \<le> mv"
proof -
  from for_columns_member [OF masking_findings [OF assms] assms(2)] obtain c fs' where
    c: "masking_column p mv c = Inr fs'" "f \<in> set fs'" by blast
  obtain col cells where cc: "c = (col, cells)" by (cases c)
  from c(1) obtain cf fss where
    cf: "scan_rows (masking_cell (set (masking_required_for p)) (set (hash_allowed_for p)) mv)
           0 cells [] = Inr cf"
    and fss: "mapM (masking_finding p col) cf = Inr fss" "fs' = concat fss"
    by (auto simp: cc masking_column_def bind_Inr_iff)
  from c(2) fss(2) obtain fs'' where f2: "fs'' \<in> set fss" "f \<in> set fs''" by auto
  from mapM_Inr_member [OF fss(1) f2(1)] obtain t vs where
    e: "(t, vs) \<in> set cf" "masking_finding p col (t, vs) = Inr fs''" by auto
  note pr = masking_finding_props [OF e(2) f2(2)]
  from masking_scan_capped [OF cf] have "distinct (map fst cf)" "capped mv t (bucket cf t)"
    by (simp_all add: buckets_inv_def)
  with bucket_entry [OF _ e(1)] pr show ?thesis by (simp add: capped_def)
qed

lemma eleven_emails_forbidden:
  "map_sum id (\<lambda>r. map count (findings r))
     (assert_no_forbidden_pii [(''email'', eleven_emails)] users_policy 10) = Inr [10]"
  by code_simp

lemma eleven_emails_masking:
  "map_sum id (\<lambda>r. map count (findings r))
     (assert_masking_applied [(''email'', eleven_emails)] users_policy 10) = Inr [10]"
  by code_simp

lemma eleven_emails_total:
  "length (filter (\<lambda>v. case v of None \<Rightarrow> False
                      | Some s \<Rightarrow> detected_occurrence (strip s) EMAIL PLAINTEXT) eleven_emails) = 11"
  by code_simp

text \<open>
  Claim C1 says that the count of a finding is the number of matching occurrences in the
  column even when that number exceeds \<open>max_violations\<close>. On a column of eleven e-mail
  addresses, with the default \<open>max_violations = 10\<close>, the forbidden-PII assertion and the
  masking assertion each emit one finding whose count is 10. (On every input the count of a
  finding is at most \<open>max_violations\<close>: \<open>forbidden_count_capped\<close>,
  \<open>masking_count_capped\<close>.)
\<close>

theorem C1_count_is_capped:
  "map_sum id (\<lambda>r. map count (findings r))
     (assert_no_forbidden_pii [(''email'', eleven_emails)] users_policy 10) = Inr [10]
   \<and> map_sum id (\<lambda>r. map count (findings r))
     (assert_masking_applied [(''email'', eleven_emails)] users_policy 10) = Inr [10]
   \<and> length (filter (\<lambda>v. case v of None \<Rightarrow> False
                        | Some s \<Rightarrow> detected_occurrence (strip s) EMAIL PLAINTEXT) eleven_emails) = 11"
  using eleven_emails_forbidden eleven_emails_masking eleven_emails_total by blast

text \<open>
  Claim C2 says that a hexadecimal string is classified as a hash only if its length is 32,
  40 or 64. The classifiers for e-mail, phone, SSN, IP address, account number and credit
  card classify a hexadecimal string of length 33 as a hash; the classifier for dates of
  birth has no hash rule and classifies a hexadecimal string of length 32 as plaintext.
\<close>

theorem C2_hex_of_other_length_is_hash:
  "email_detect_masking ''5d41402abc4b2a76b9719d911017c592a'' = HASH
   \<and> phone_detect_masking ''5d41402abc4b2a76b9719d911017c592a'' = HASH
   \<and> ssn_detect_masking ''5d41402abc4b2a76b9719d911017c592a'' = HASH
   \<and> ip_detect_masking ''5d41402abc4b2a76b9719d911017c592a'' = HASH
   \<and> account_detect_masking ''5d41402abc4b2a76b9719d911017c592a'' = HASH
   \<and> detect_credit_card_masking ''5d41402abc4b2a76b9719d911017c592a'' = Inr HASH
   \<and> length ''5d41402abc4b2a76b9719d911017c592a'' = 33
   \<and> dob_detect_masking ''5d41402abc4b2a76b9719d911017c592'' = PLAINTEXT
   \<and> length ''5d41402abc4b2a76b9719d911017c592'' = 32"
  by code_simp

end
